theory Spec2Isabelle
  imports Main "HOL-Library.Word" "HOL-Library.Sublist"
begin

unbundle bit_operations_syntax

section \<open>The descriptor ring of tools/virtio/ringtest/ring.c\<close>

text \<open>
  C types on an LP64 target: \<open>unsigned short\<close> is a 16-bit word, \<open>unsigned\<close> a 32-bit
  word, \<open>unsigned long long\<close> and \<open>void *\<close> are 64-bit words; \<open>NULL\<close> is the pointer 0.
  The fences (\<open>barrier\<close>, \<open>smp_acquire\<close>, \<open>smp_release\<close>, \<open>smp_mb\<close>) and \<open>DPRINT\<close>
  (compiled out, \<open>DEBUG\<close> is 0) have no effect on a sequential run and are not modelled.
  The arrays \<open>ring\<close> and \<open>data\<close> are lists of \<open>ring_size\<close> elements; that no run from the
  initial state indexes them out of range is lemma \<open>accesses_in_range\<close>.
\<close>

type_synonym u16 = "16 word"
type_synonym u32 = "32 word"
type_synonym u64 = "64 word"
type_synonym ptr = "64 word"

subsection \<open>The event tie-break\<close>

text \<open>
  \<open>return (unsigned short)(next - event - 1) < (unsigned short)(next - prev);\<close>
  The operands are promoted to \<open>int\<close>, the differences are computed there and cast back
  to 16 bits.
\<close>

definition need_event :: "u16 \<Rightarrow> u16 \<Rightarrow> u16 \<Rightarrow> bool" where
  "need_event event next prev =
     ((word_of_int (uint next - uint event - 1) :: u16) < word_of_int (uint next - uint prev))"

subsection \<open>Structures and globals\<close>

definition DESC_HW :: u16 where
  "DESC_HW = 0x80"

definition DESC_WRAP :: u16 where
  "DESC_WRAP = 0x40"

record desc =
  addr :: u64
  len :: u32
  index :: u16
  flags :: u16

record event =
  kick_index :: u16
  call_index :: u16

record data =
  buf :: ptr
  data :: ptr

record guest =
  wrap :: u16
  avail_idx :: u32
  last_used_idx :: u32
  num_free :: u32
  kicked_avail_idx :: u32

record host =
  wrap :: u16
  used_idx :: u32
  called_used_idx :: u32

text \<open>
  The globals of ring.c, together with \<open>ring_size\<close> (declared in main.h, set by the
  harness) and two counters that record how often the external primitives \<open>kick()\<close> and
  \<open>call()\<close> were invoked.
\<close>

record state =
  ring_size :: u32
  ring :: "desc list"
  event :: event
  data :: "data list"
  guest :: guest
  host :: host
  kicks :: nat
  calls :: nat

text \<open>The caller's variables behind the three output pointers of \<open>get_buf\<close> and \<open>use_buf\<close>.\<close>

record outs =
  lenp :: u32
  bufp :: ptr
  flagsp :: u16

subsection \<open>alloc_ring\<close>

datatype exit = Exit int

text \<open>
  The three booleans say whether \<open>posix_memalign\<close> for the ring, \<open>malloc\<close> for the event
  structure and \<open>malloc\<close> for the shadow table succeeded. Each failure ends the process
  with \<open>exit(3)\<close>. \<open>initial\<close> is the contents of the globals when \<open>alloc_ring\<close> returns:
  the loop \<open>for (i = 0; i < ring_size; ++i) ring[i] = {.index = i}\<close> stores \<open>i\<close> into a
  16-bit field and zeroes the other fields, \<open>memset\<close> zeroes the event structure and the
  shadow table.
\<close>

definition initial :: "u32 \<Rightarrow> state" where
  "initial rs =
     \<lparr>ring_size = rs,
      ring = map (\<lambda>i. \<lparr>addr = 0, len = 0, index = of_nat i, flags = 0\<rparr>) [0..<unat rs],
      event = \<lparr>kick_index = 0, call_index = 0\<rparr>,
      state.data = replicate (unat rs) \<lparr>buf = 0, data.data = 0\<rparr>,
      guest = \<lparr>guest.wrap = 0x40, avail_idx = 0, last_used_idx = 0,
               num_free = rs, kicked_avail_idx = - 1\<rparr>,
      host = \<lparr>host.wrap = 0x40, used_idx = 0, called_used_idx = - 1\<rparr>,
      kicks = 0, calls = 0\<rparr>"

definition alloc_ring :: "u32 \<Rightarrow> bool \<Rightarrow> bool \<Rightarrow> bool \<Rightarrow> exit + state" where
  "alloc_ring rs ring_alloc event_alloc data_alloc =
     (if \<not> ring_alloc then Inl (Exit 3)
      else if \<not> event_alloc then Inl (Exit 3)
      else if \<not> data_alloc then Inl (Exit 3)
      else Inr (initial rs))"

subsection \<open>Guest side\<close>

text \<open>
  \<open>add_inbuf\<close> returns \<open>-1\<close> without touching anything when \<open>num_free\<close> is 0. Otherwise it
  takes the slot \<open>head = (ring_size - 1) & guest.avail_idx++\<close>, flips \<open>guest.wrap\<close> between
  \<open>0x40\<close> and 0 when \<open>head\<close> is 0 (\<open>guest_flip\<close>), writes \<open>addr\<close> and \<open>len\<close>, stores \<open>buf\<close>
  and \<open>datap\<close> in the shadow entry \<open>data[ring[head].index]\<close> and last sets the flags to
  \<open>DESC_HW | guest.wrap\<close>. Its parameter \<open>flags\<close> is not used.
\<close>

definition guest_flip :: "guest \<Rightarrow> guest" where
  "guest_flip g =
     (if guest.wrap g = 0x40 then g\<lparr>guest.wrap := 0\<rparr>
      else if guest.wrap g = 0 then g\<lparr>guest.wrap := 0x40\<rparr>
      else g)"

definition add_inbuf :: "u32 \<Rightarrow> ptr \<Rightarrow> ptr \<Rightarrow> u16 \<Rightarrow> state \<Rightarrow> int \<times> state" where
  "add_inbuf lenv bufv datap flagsv s =
     (if num_free (guest s) = 0 then (- 1, s)
      else
        let g1 = (guest s)\<lparr>num_free := num_free (guest s) - 1\<rparr>;
            head = (ring_size s - 1) AND avail_idx g1;
            g2 = g1\<lparr>avail_idx := avail_idx g1 + 1\<rparr>;
            g3 = (if head = 0 then guest_flip g2 else g2);
            h = unat head;
            r1 = (ring s)[h := (ring s ! h)\<lparr>addr := bufv, len := lenv\<rparr>];
            i = unat (index (r1 ! h));
            d1 = (state.data s)[i := \<lparr>buf = bufv, data.data = datap\<rparr>];
            r2 = r1[h := (r1 ! h)\<lparr>flags := DESC_HW OR guest.wrap g3\<rparr>]
        in (0, s\<lparr>guest := g3, ring := r2, state.data := d1\<rparr>))"

text \<open>
  \<open>get_buf\<close> returns \<open>NULL\<close> when the slot at \<open>last_used_idx\<close> carries \<open>DESC_HW\<close>. Otherwise
  it writes the three output variables, clears the shadow entry
  \<open>data[ring[head].index & (ring_size - 1)]\<close>, increments \<open>num_free\<close> and \<open>last_used_idx\<close> and
  returns the tag that the entry held.
\<close>

text \<open>The locals \<open>head\<close> and \<open>index\<close> of \<open>get_buf\<close>.\<close>

definition get_buf_head :: "state \<Rightarrow> nat" where
  "get_buf_head s = unat ((ring_size s - 1) AND last_used_idx (guest s))"

definition get_buf_index :: "state \<Rightarrow> nat" where
  "get_buf_index s =
     unat ((ucast (index (ring s ! get_buf_head s)) :: u32) AND (ring_size s - 1))"

definition get_buf :: "outs \<Rightarrow> state \<Rightarrow> ptr \<times> outs \<times> state" where
  "get_buf out s =
     (let h = get_buf_head s
      in if flags (ring s ! h) AND DESC_HW \<noteq> 0 then (0, out, s)
         else
           let i = get_buf_index s;
               datap = data.data (state.data s ! i);
               d1 = (state.data s)[i := \<lparr>buf = 0, data.data = 0\<rparr>];
               g1 = (guest s)\<lparr>num_free := num_free (guest s) + 1,
                              last_used_idx := last_used_idx (guest s) + 1\<rparr>
           in (datap,
               \<lparr>lenp = len (ring s ! h), bufp = data.buf (state.data s ! i),
                flagsp = flags (ring s ! h)\<rparr>,
               s\<lparr>state.data := d1, guest := g1\<rparr>))"

text \<open>
  \<open>used_empty\<close>, \<open>disable_call\<close> (empty), \<open>enable_call\<close> and \<open>kick_available\<close>. The arguments
  of \<open>need_event\<close> are \<open>unsigned short\<close>: the 32-bit indices are truncated. A call of the
  external \<open>kick()\<close> is counted in \<open>kicks\<close>.
\<close>

definition used_empty :: "state \<Rightarrow> bool" where
  "used_empty s =
     (let h = unat ((ring_size s - 1) AND last_used_idx (guest s))
      in flags (ring s ! h) AND DESC_HW \<noteq> 0
         \<and> flags (ring s ! h) AND DESC_WRAP = host.wrap (host s))"

definition disable_call :: "state \<Rightarrow> state" where
  "disable_call s = s"

definition enable_call :: "state \<Rightarrow> bool \<times> state" where
  "enable_call s =
     (let s1 = s\<lparr>event := (event s)\<lparr>call_index := ucast (last_used_idx (guest s))\<rparr>\<rparr>
      in (used_empty s1, s1))"

definition kick_available :: "state \<Rightarrow> state" where
  "kick_available s =
     (if \<not> need_event (kick_index (event s)) (ucast (avail_idx (guest s)))
              (ucast (kicked_avail_idx (guest s)))
      then s
      else s\<lparr>guest := (guest s)\<lparr>kicked_avail_idx := avail_idx (guest s)\<rparr>,
             kicks := Suc (kicks s)\<rparr>)"

subsection \<open>Host side\<close>

text \<open>
  \<open>disable_kick\<close> (empty), \<open>avail_empty\<close>, \<open>enable_kick\<close>, \<open>use_buf\<close> and \<open>call_used\<close>.
  \<open>use_buf\<close> first flips \<open>host.wrap\<close> between \<open>DESC_WRAP\<close> and 0 when \<open>head\<close> is 0
  (\<open>host_flip\<close>), then returns false when the slot lacks \<open>DESC_HW\<close> or its \<open>DESC_WRAP\<close> bit
  differs from \<open>host.wrap\<close>; otherwise it decrements \<open>len\<close>, stores the flags in \<open>*flags\<close>,
  sets the flags to \<open>DESC_WRAP\<close> or 0 after \<open>host.wrap\<close> and increments \<open>used_idx\<close>. It
  has no assignment to \<open>*lenp\<close> or \<open>*bufp\<close>. A call of the external \<open>call()\<close> is counted in
  \<open>calls\<close>.
\<close>

definition disable_kick :: "state \<Rightarrow> state" where
  "disable_kick s = s"

definition avail_empty :: "state \<Rightarrow> bool" where
  "avail_empty s =
     (let h = unat ((ring_size s - 1) AND used_idx (host s))
      in \<not> (flags (ring s ! h) AND DESC_HW \<noteq> 0))"

definition enable_kick :: "state \<Rightarrow> bool \<times> state" where
  "enable_kick s =
     (let s1 = s\<lparr>event := (event s)\<lparr>kick_index := ucast (used_idx (host s))\<rparr>\<rparr>
      in (avail_empty s1, s1))"

definition host_flip :: "host \<Rightarrow> host" where
  "host_flip x =
     (if host.wrap x = DESC_WRAP then x\<lparr>host.wrap := 0\<rparr>
      else if host.wrap x = 0 then x\<lparr>host.wrap := DESC_WRAP\<rparr>
      else x)"

definition use_buf :: "outs \<Rightarrow> state \<Rightarrow> bool \<times> outs \<times> state" where
  "use_buf out s =
     (let head = (ring_size s - 1) AND used_idx (host s);
          h = unat head;
          h1 = (if head = 0 then host_flip (host s) else host s);
          s1 = s\<lparr>host := h1\<rparr>
      in if \<not> (flags (ring s ! h) AND DESC_HW \<noteq> 0) then (False, out, s1)
         else if flags (ring s ! h) AND DESC_WRAP \<noteq> host.wrap h1 then (False, out, s1)
         else
           let r1 = (ring s)[h := (ring s ! h)\<lparr>len := len (ring s ! h) - 1\<rparr>];
               out1 = out\<lparr>flagsp := flags (r1 ! h)\<rparr>;
               r2 = r1[h := (r1 ! h)\<lparr>flags := (if host.wrap h1 \<noteq> 0 then DESC_WRAP else 0)\<rparr>]
           in (True, out1, s1\<lparr>ring := r2, host := h1\<lparr>used_idx := used_idx h1 + 1\<rparr>\<rparr>))"

definition call_used :: "state \<Rightarrow> state" where
  "call_used s =
     (if \<not> need_event (call_index (event s)) (ucast (used_idx (host s)))
              (ucast (called_used_idx (host s)))
      then s
      else s\<lparr>host := (host s)\<lparr>called_used_idx := used_idx (host s)\<rparr>,
             calls := Suc (calls s)\<rparr>)"

section \<open>Call sequences\<close>

text \<open>
  A run of index values \<open>ns\<close> that the current index takes one after the other, starting
  from \<open>p\<close>: \<open>total_advance\<close> adds up the 16-bit distances of the steps, \<open>any_step\<close> is
  the disjunction of the tie-break evaluated after every step against the index of the
  step before, and \<open>kick_after_each\<close> lets the guest's \<open>avail_idx\<close> take each value in turn
  and calls \<open>kick_available\<close> after each.
\<close>

fun total_advance :: "u16 \<Rightarrow> u16 list \<Rightarrow> nat" where
  "total_advance p [] = 0"
| "total_advance p (n # ns) = unat (n - p) + total_advance n ns"

fun any_step :: "u16 \<Rightarrow> u16 \<Rightarrow> u16 list \<Rightarrow> bool" where
  "any_step e p [] = False"
| "any_step e p (n # ns) = (need_event e n p \<or> any_step e n ns)"

fun kick_after_each :: "state \<Rightarrow> u32 list \<Rightarrow> state" where
  "kick_after_each s [] = s"
| "kick_after_each s (n # ns) =
     kick_after_each (kick_available (s\<lparr>guest := (guest s)\<lparr>avail_idx := n\<rparr>\<rparr>)) ns"

text \<open>
  The operations of the two endpoints as a datatype, and runs of them. \<open>step\<close> keeps the
  state an operation leaves behind; \<open>out0\<close> stands for the caller's output variables.
  \<open>published\<close> lists the tags (\<open>datap\<close>) of the calls of \<open>add_inbuf\<close> that returned 0,
  \<open>reclaimed\<close> the non-null pointers that \<open>get_buf\<close> returned, both in call order.
  \<open>publish_guarded\<close> says that \<open>add_inbuf\<close> is never called with \<open>num_free\<close> 0,
  \<open>reclaim_guarded\<close> that \<open>get_buf\<close> is never called with \<open>num_free\<close> equal to
  \<open>ring_size\<close>, that is, with nothing published and not yet reclaimed.
  \<open>owned_by_host\<close> counts the descriptors whose flags carry \<open>DESC_HW\<close>.
\<close>

definition out0 :: outs where
  "out0 = \<lparr>lenp = 0, bufp = 0, flagsp = 0\<rparr>"

datatype op =
    Add_inbuf u32 ptr ptr u16
  | Get_buf
  | Enable_call
  | Disable_call
  | Kick_available
  | Use_buf
  | Enable_kick
  | Disable_kick
  | Call_used

fun step :: "op \<Rightarrow> state \<Rightarrow> state" where
  "step (Add_inbuf lenv bufv datap flagsv) s = snd (add_inbuf lenv bufv datap flagsv s)"
| "step Get_buf s = snd (snd (get_buf out0 s))"
| "step Enable_call s = snd (enable_call s)"
| "step Disable_call s = disable_call s"
| "step Kick_available s = kick_available s"
| "step Use_buf s = snd (snd (use_buf out0 s))"
| "step Enable_kick s = snd (enable_kick s)"
| "step Disable_kick s = disable_kick s"
| "step Call_used s = call_used s"

fun run :: "op list \<Rightarrow> state \<Rightarrow> state" where
  "run [] s = s"
| "run (x # xs) s = run xs (step x s)"

fun published1 :: "op \<Rightarrow> state \<Rightarrow> ptr list" where
  "published1 (Add_inbuf lenv bufv datap flagsv) s =
     (if fst (add_inbuf lenv bufv datap flagsv s) = 0 then [datap] else [])"
| "published1 _ s = []"

fun reclaimed1 :: "op \<Rightarrow> state \<Rightarrow> ptr list" where
  "reclaimed1 Get_buf s = (if fst (get_buf out0 s) \<noteq> 0 then [fst (get_buf out0 s)] else [])"
| "reclaimed1 _ s = []"

fun published :: "op list \<Rightarrow> state \<Rightarrow> ptr list" where
  "published [] s = []"
| "published (x # xs) s = published1 x s @ published xs (step x s)"

fun reclaimed :: "op list \<Rightarrow> state \<Rightarrow> ptr list" where
  "reclaimed [] s = []"
| "reclaimed (x # xs) s = reclaimed1 x s @ reclaimed xs (step x s)"

fun is_add :: "op \<Rightarrow> bool" where
  "is_add (Add_inbuf lenv bufv datap flagsv) = True"
| "is_add _ = False"

fun publish_guarded :: "op list \<Rightarrow> state \<Rightarrow> bool" where
  "publish_guarded [] s = True"
| "publish_guarded (x # xs) s =
     ((if is_add x then num_free (guest s) \<noteq> 0 else True) \<and> publish_guarded xs (step x s))"

fun reclaim_guarded :: "op list \<Rightarrow> state \<Rightarrow> bool" where
  "reclaim_guarded [] s = True"
| "reclaim_guarded (x # xs) s =
     ((if x = Get_buf then num_free (guest s) \<noteq> ring_size s else True)
      \<and> reclaim_guarded xs (step x s))"

definition owned_by_host :: "state \<Rightarrow> nat" where
  "owned_by_host s = length (filter (\<lambda>d. flags d AND DESC_HW \<noteq> 0) (ring s))"

text \<open>
  For the proofs: \<open>hw s i\<close> says that the descriptor at position \<open>i\<close> carries \<open>DESC_HW\<close>;
  \<open>use_buf_head\<close>, \<open>lap_host\<close> and \<open>use_buf_ok\<close> name the local \<open>head\<close> of \<open>use_buf\<close>, the
  host structure after its \<open>if (head == 0)\<close> block and the conjunction of its two tests;
  \<open>in_flight\<close> is the 32-bit difference of the publish index and the reclaim cursor.
  \<open>ring_inv k s L U A\<close> relates the state of a ring of \<open>2^k\<close> slots to the numbers \<open>L\<close>,
  \<open>U\<close>, \<open>A\<close> of buffers reclaimed, completed and published so far: the three cursors are
  these numbers modulo \<open>2^32\<close>, \<open>num_free\<close> counts the slots outside \<open>[L, A)\<close>, and
  exactly the slots of \<open>[U, A)\<close> carry \<open>DESC_HW\<close>.
\<close>

definition hw :: "state \<Rightarrow> nat \<Rightarrow> bool" where
  "hw s i = (flags (ring s ! i) AND DESC_HW \<noteq> 0)"

definition use_buf_head :: "state \<Rightarrow> nat" where
  "use_buf_head s = unat ((ring_size s - 1) AND used_idx (host s))"

definition lap_host :: "state \<Rightarrow> host" where
  "lap_host s =
     (if (ring_size s - 1) AND used_idx (host s) = 0 then host_flip (host s) else host s)"

definition use_buf_ok :: "state \<Rightarrow> bool" where
  "use_buf_ok s =
     (flags (ring s ! use_buf_head s) AND DESC_HW \<noteq> 0
      \<and> flags (ring s ! use_buf_head s) AND DESC_WRAP = host.wrap (lap_host s))"

definition in_flight :: "state \<Rightarrow> u32" where
  "in_flight s = avail_idx (guest s) - last_used_idx (guest s)"

definition ring_inv :: "nat \<Rightarrow> state \<Rightarrow> nat \<Rightarrow> nat \<Rightarrow> nat \<Rightarrow> bool" where
  "ring_inv k s L U A =
     (k < 32 \<and> ring_size s = 2 ^ k \<and> length (ring s) = 2 ^ k
      \<and> last_used_idx (guest s) = of_nat L \<and> used_idx (host s) = of_nat U
      \<and> avail_idx (guest s) = of_nat A
      \<and> L \<le> U \<and> U \<le> A \<and> A \<le> L + 2 ^ k
      \<and> num_free (guest s) = of_nat (L + 2 ^ k - A)
      \<and> (\<forall>j. U \<le> j \<and> j < A \<longrightarrow> hw s (j mod 2 ^ k))
      \<and> (\<forall>j. A \<le> j \<and> j < U + 2 ^ k \<longrightarrow> \<not> hw s (j mod 2 ^ k)))"

text \<open>A run on a ring of four slots that leaves one slot published and one completed.\<close>

definition busy :: "op list" where
  "busy = [Add_inbuf 8 0x1000 0xA 0, Add_inbuf 8 0x1000 0xB 0, Add_inbuf 8 0x1000 0xC 0,
           Use_buf, Use_buf, Get_buf]"

text \<open>
  \<open>shadow_inv k s L A pub\<close> relates the shadow table to the list \<open>pub\<close> of all tags
  published so far: every descriptor carries its position as identifier, and the entry
  of every published and not yet reclaimed buffer \<open>j\<close> in \<open>[L, A)\<close> holds the tag
  \<open>pub ! j\<close>. \<open>nonnull\<close> drops the null tags, which \<open>get_buf\<close> cannot hand back as
  anything but \<open>NULL\<close>.
\<close>

definition shadow_inv :: "nat \<Rightarrow> state \<Rightarrow> nat \<Rightarrow> nat \<Rightarrow> ptr list \<Rightarrow> bool" where
  "shadow_inv k s L A pub =
     (k \<le> 16 \<and> length (state.data s) = 2 ^ k
      \<and> (\<forall>i < 2 ^ k. index (ring s ! i) = of_nat i)
      \<and> length pub = A
      \<and> (\<forall>j. L \<le> j \<and> j < A \<longrightarrow> data.data (state.data s ! (j mod 2 ^ k)) = pub ! j))"

definition nonnull :: "ptr list \<Rightarrow> ptr list" where
  "nonnull ts = filter (\<lambda>t. t \<noteq> 0) ts"

text \<open>
  Three runs: \<open>filled k n\<close> is a ring of \<open>2^k\<close> slots after \<open>n\<close> publishes; \<open>premature\<close>
  calls \<open>get_buf\<close> on a ring of two slots before anything is published; \<open>aliased\<close>
  publishes 65537 buffers into a ring of \<open>2^17\<close> slots, completes the first and reclaims it.
\<close>

definition filled :: "nat \<Rightarrow> nat \<Rightarrow> state" where
  "filled k n = run (replicate n (Add_inbuf 8 0x1000 0xA 0)) (initial (2 ^ k))"

definition premature :: "op list" where
  "premature = [Get_buf, Add_inbuf 8 0x1000 0xA 0, Add_inbuf 8 0x1000 0xB 0,
                Use_buf, Use_buf, Get_buf, Get_buf]"

definition aliased :: "op list" where
  "aliased = replicate 65536 (Add_inbuf 8 0x1000 0xA 0) @ [Add_inbuf 8 0x1000 0xB 0, Use_buf, Get_buf]"

text \<open>
  Three laps round a ring of two slots, each buffer published, completed and reclaimed
  before the next is published, so that \<open>use_buf\<close> never meets an empty slot.
\<close>

definition three_laps :: "op list" where
  "three_laps = concat (map (\<lambda>t. [Add_inbuf 8 0x1000 t 0, Use_buf, Get_buf]) [1, 2, 3, 4, 5, 6])"

text \<open>A run on a ring of two slots that goes round the ring once and a half.\<close>

definition lap :: "op list" where
  "lap = [Add_inbuf 8 0x1000 0xA 0, Add_inbuf 8 0x1000 0xB 0, Use_buf, Get_buf, Use_buf, Get_buf,
          Add_inbuf 8 0x1000 0xC 0, Use_buf, Get_buf]"

text \<open>The last-notified indices and the invocation counts of the two primitives.\<close>

definition notified :: "state \<Rightarrow> u32 \<times> nat \<times> u32 \<times> nat" where
  "notified s = (kicked_avail_idx (guest s), kicks s, called_used_idx (host s), calls s)"

text \<open>The state after one publish and one \<open>kick_available\<close> on a fresh ring of two slots.\<close>

definition kicked_once :: state where
  "kicked_once = kick_available (snd (add_inbuf 8 0x1000 0x2000 0 (initial 2)))"

section \<open>The tie-break on 16-bit indices\<close>

lemma need_event_word: "need_event e n p = (n - e - 1 < n - p)"
  by (simp add: need_event_def)

text \<open>
  Claim C1. \<open>need_event\<close>, on 16-bit unsigned indices, is true exactly when
  \<open>(next - event - 1) mod 2^16 < (next - prev) mod 2^16\<close>; on the four test vectors of
  the specification it gives true, false, false and true.
\<close>

theorem need_event_exact:
  "need_event e n p = ((uint n - uint e - 1) mod 2 ^ 16 < (uint n - uint p) mod 2 ^ 16)
   \<and> need_event 5 10 5 = True
   \<and> need_event 10 10 5 = False
   \<and> need_event 0 0 0 = False
   \<and> need_event 65535 2 65534 = True"
proof -
  have "need_event e n p = ((uint n - uint e - 1) mod 2 ^ 16 < (uint n - uint p) mod 2 ^ 16)"
    unfolding need_event_def word_less_def uint_word_of_int by simp
  moreover have "need_event 5 10 5"
    unfolding need_event_def word_less_def uint_word_of_int by simp
  moreover have "\<not> need_event 10 10 5"
    unfolding need_event_def word_less_def uint_word_of_int by simp
  moreover have "\<not> need_event 0 0 0"
    unfolding need_event_def word_less_def uint_word_of_int by simp
  moreover have "need_event 65535 2 65534"
    unfolding need_event_def word_less_def uint_word_of_int by simp
  ultimately show ?thesis by simp
qed

subsection \<open>Intervals of 16-bit indices\<close>

lemma int_interval:
  fixes A D X Y :: int
  assumes "0 \<le> A" "A < 65536" "0 \<le> D" "D < 65536"
    and "X = (if A \<le> D then D - A else D - A + 65536)"
    and "Y = (if 1 \<le> X then X - 1 else X - 1 + 65536)"
  shows "(Y < D) = (A < D)"
  using assms by (auto split: if_splits)

lemma word_interval: "(d - a - 1 < d) = (a < d)" for a d :: u16
proof -
  have u1: "uint (1::u16) = 1" by simp
  have a0: "0 \<le> uint a" and d0: "0 \<le> uint d" by simp_all
  have a1: "uint a < 65536" using uint_lt2p [of a] by simp
  have d1: "uint d < 65536" using uint_lt2p [of d] by simp
  have s1: "uint (d - a) = (if uint a \<le> uint d then uint d - uint a else uint d - uint a + 65536)"
    by (simp add: uint_sub_if')
  have s2: "uint (d - a - 1) =
      (if 1 \<le> uint (d - a) then uint (d - a) - 1 else uint (d - a) - 1 + 65536)"
    using uint_sub_if' [of "d - a" 1] by (simp only: u1) simp
  have "(uint (d - a - 1) < uint d) = (uint a < uint d)"
    using a0 a1 d0 d1 s1 s2 by (rule int_interval)
  then show ?thesis by (simp add: word_less_def)
qed

lemma ne_interval: "need_event e n p = (e - p < n - p)"
proof -
  have "n - e - 1 = (n - p) - (e - p) - 1" by simp
  then show ?thesis
    unfolding need_event_word using word_interval [of "n - p" "e - p"] by simp
qed

lemma unat_split:
  fixes n m p :: u16
  assumes "unat (n - p) + unat (m - n) < 65536"
  shows "unat (m - p) = unat (n - p) + unat (m - n)"
proof -
  have "m - p = (n - p) + (m - n)" by simp
  moreover have "unat ((n - p) + (m - n)) = unat (n - p) + unat (m - n)"
    using assms unat_add_lem [of "n - p" "m - n"] by simp
  ultimately show ?thesis by simp
qed

lemma unat_diff_shift:
  fixes e n p :: u16
  assumes "unat (n - p) \<le> unat (e - p)"
  shows "unat (e - n) = unat (e - p) - unat (n - p)"
proof -
  have "e - n = (e - p) - (n - p)" by simp
  moreover have "unat ((e - p) - (n - p)) = unat (e - p) - unat (n - p)"
    using assms unat_sub [of "n - p" "e - p"] by (simp only: word_le_nat_alt)
  ultimately show ?thesis by simp
qed

lemma need_event_two_steps:
  fixes e n m p :: u16
  assumes "unat (n - p) + unat (m - n) < 65536"
  shows "need_event e m p = (need_event e n p \<or> need_event e m n)"
    and "need_event e n p \<Longrightarrow> \<not> need_event e m n"
proof -
  have mp: "unat (m - p) = unat (n - p) + unat (m - n)"
    using assms by (rule unat_split)
  have i1: "need_event e m p = (unat (e - p) < unat (m - p))"
    and i2: "need_event e n p = (unat (e - p) < unat (n - p))"
    and i3: "need_event e m n = (unat (e - n) < unat (m - n))"
    by (simp_all only: ne_interval word_less_nat_alt)
  have sh: "\<not> unat (e - p) < unat (n - p) \<Longrightarrow> unat (e - n) = unat (e - p) - unat (n - p)"
    by (rule unat_diff_shift) simp
  have wrapd: "unat (e - p) < unat (n - p) \<Longrightarrow> unat (e - n) = 65536 - (unat (n - p) - unat (e - p))"
  proof -
    assume lt: "unat (e - p) < unat (n - p)"
    have "e - n = (e - p) - (n - p)" by simp
    then have "unat (e - n) = unat (e - p) + 2 ^ size (e - p) - unat (n - p)"
      using lt unat_sub_if_size [of "e - p" "n - p"] by (simp only:) simp
    then show ?thesis using lt by (simp add: word_size)
  qed
  show "need_event e m p = (need_event e n p \<or> need_event e m n)"
    using mp sh wrapd assms unfolding i1 i2 i3 by (cases "unat (e - p) < unat (n - p)") auto
  show "need_event e n p \<Longrightarrow> \<not> need_event e m n"
    using mp wrapd assms unfolding i1 i2 i3 by auto
qed

lemma need_event_same: "\<not> need_event e n n"
  by (simp add: ne_interval)

lemma advance_from:
  "unat (q - p) + total_advance q ns < 65536 \<Longrightarrow>
     unat (last (q # ns) - p) = unat (q - p) + total_advance q ns
     \<and> (\<forall>n \<in> set ns. unat (n - p) \<le> unat (last (q # ns) - p))"
proof (induction ns arbitrary: q)
  case Nil
  then show ?case by simp
next
  case (Cons n ns)
  have st: "unat (n - p) = unat (q - p) + unat (n - q)"
    using Cons.prems unat_split [of q p n] by simp
  then have "unat (n - p) + total_advance n ns < 65536"
    using Cons.prems by simp
  from Cons.IH [OF this] st show ?case by auto
qed

lemma advance_total:
  assumes "total_advance p ns < 65536"
  shows "unat (last (p # ns) - p) = total_advance p ns"
proof -
  have "unat (p - p) + total_advance p ns < 65536" using assms by simp
  from advance_from [OF this] show ?thesis by simp
qed

lemma any_step_telescopes:
  "total_advance p ns < 65536 \<Longrightarrow> any_step e p ns = need_event e (last (p # ns)) p"
proof (induction ns arbitrary: p)
  case Nil
  then show ?case by (simp add: need_event_same)
next
  case (Cons n ns)
  have t: "total_advance n ns < 65536" using Cons.prems by simp
  have "unat (n - p) + unat (last (n # ns) - n) < 65536"
    using Cons.prems advance_total [OF t] by simp
  then have "need_event e (last (n # ns)) p = (need_event e n p \<or> need_event e (last (n # ns)) n)"
    by (rule need_event_two_steps(1))
  then show ?case using Cons.IH [OF t] by simp
qed

lemma any_fixed_telescopes:
  assumes "total_advance p ns < 65536"
  shows "list_ex (\<lambda>n. need_event e n p) ns = need_event e (last (p # ns)) p"
proof (cases ns)
  case Nil
  then show ?thesis by (simp add: need_event_same)
next
  case (Cons a as)
  then have "last (p # ns) \<in> set ns" by simp
  moreover have "\<forall>n \<in> set ns. unat (n - p) \<le> unat (last (p # ns) - p)"
  proof -
    have "unat (p - p) + total_advance p ns < 65536" using assms by simp
    from advance_from [OF this] show ?thesis by blast
  qed
  ultimately show ?thesis
    by (auto simp: list_ex_iff ne_interval word_less_nat_alt)
qed

lemma total_advance_skip:
  "total_advance p (n # ns) < 65536 \<Longrightarrow> total_advance p ns \<le> total_advance p (n # ns)"
proof (cases ns)
  case Nil
  then show ?thesis by simp
next
  case (Cons a as)
  assume "total_advance p (n # ns) < 65536"
  then have "unat (a - p) = unat (n - p) + unat (a - n)"
    using Cons unat_split [of n p a] by simp
  then show ?thesis using Cons by simp
qed

lemma kick_after_each_count:
  "total_advance (ucast (kicked_avail_idx (guest s))) (map ucast ms) < 65536 \<Longrightarrow>
   kicks (kick_after_each s ms) = kicks s +
     (if need_event (kick_index (event s))
           (last (ucast (kicked_avail_idx (guest s)) # map ucast ms))
           (ucast (kicked_avail_idx (guest s)))
      then 1 else 0)"
proof (induction ms arbitrary: s)
  case Nil
  then show ?case by (simp add: need_event_same)
next
  case (Cons m ms)
  let ?e = "kick_index (event s)"
  let ?p = "ucast (kicked_avail_idx (guest s)) :: u16"
  let ?n = "ucast m :: u16"
  let ?ns = "map ucast ms :: u16 list"
  let ?s' = "kick_available (s\<lparr>guest := (guest s)\<lparr>avail_idx := m\<rparr>\<rparr>)"
  have tot: "total_advance ?p (?n # ?ns) < 65536" using Cons.prems by simp
  have e': "kick_index (event ?s') = ?e" by (simp add: kick_available_def)
  show ?case
  proof (cases "need_event ?e ?n ?p")
    case True
    then have p': "(ucast (kicked_avail_idx (guest ?s')) :: u16) = ?n"
      and k': "kicks ?s' = Suc (kicks s)"
      by (simp_all add: kick_available_def)
    have t: "total_advance ?n ?ns < 65536" using tot by simp
    have two: "unat (?n - ?p) + unat (last (?n # ?ns) - ?n) < 65536"
      using tot advance_total [OF t] by simp
    have "\<not> need_event ?e (last (?n # ?ns)) ?n"
      using need_event_two_steps(2) [OF two] True by simp
    moreover have "need_event ?e (last (?n # ?ns)) ?p"
      using need_event_two_steps(1) [OF two] True by simp
    moreover have "kicks (kick_after_each ?s' ms) = kicks ?s' +
       (if need_event ?e (last (?n # ?ns)) ?n then 1 else 0)"
      using Cons.IH [of ?s'] t by (simp only: p' e')
    ultimately show ?thesis using k' by simp
  next
    case False
    then have p': "(ucast (kicked_avail_idx (guest ?s')) :: u16) = ?p"
      and k': "kicks ?s' = kicks s"
      by (simp_all add: kick_available_def)
    have t: "total_advance ?p ?ns < 65536"
      using tot total_advance_skip [OF tot] by simp
    have ih: "kicks (kick_after_each ?s' ms) = kicks ?s' +
       (if need_event ?e (last (?p # ?ns)) ?p then 1 else 0)"
      using Cons.IH [of ?s'] t by (simp only: p' e')
    have "need_event ?e (last (?p # ?ns)) ?p = need_event ?e (last (?p # ?n # ?ns)) ?p"
      using False by (cases ms) (simp_all add: need_event_same)
    then show ?thesis using ih k' by simp
  qed
qed

text \<open>
  Claim C2. For a requested index \<open>e\<close>, a last-notified index \<open>p\<close> and a run of current
  indices that starts at \<open>p\<close> and advances by less than \<open>2^16\<close> in total, the tie-break
  against the final index equals the disjunction of the tie-break after every advance,
  both when each evaluation is taken against the index of the evaluation before and when
  all are taken against \<open>p\<close>; and when \<open>kick_available\<close> runs after every advance, the
  external primitive is invoked once if the final evaluation is true and never otherwise.
\<close>

theorem need_event_telescopes:
  "total_advance p ns < 65536 \<longrightarrow>
     need_event e (last (p # ns)) p = any_step e p ns
     \<and> need_event e (last (p # ns)) p = list_ex (\<lambda>n. need_event e n p) ns
     \<and> (kick_index (event s) = e \<and> ucast (kicked_avail_idx (guest s)) = p \<and> map ucast ms = ns \<longrightarrow>
          kicks (kick_after_each s ms) = kicks s + (if need_event e (last (p # ns)) p then 1 else 0))"
  using any_step_telescopes [of p ns e] any_fixed_telescopes [of p ns e] kick_after_each_count [of s ms]
  by auto

theorem need_event_telescopes_witness:
  "total_advance 65530 [65533, 2, 10] < 65536
   \<and> need_event 0 (last [65530, 65533, 2, 10]) 65530
   \<and> any_step 0 65530 [65533, 2, 10]
   \<and> list_ex (\<lambda>n. need_event 0 n 65530) [65533, 2, 10]
   \<and> kicks (kick_after_each ((initial 4)\<lparr>guest := (guest (initial 4))\<lparr>kicked_avail_idx := 65530\<rparr>\<rparr>)
        [65533, 65538, 65546]) = 1"
proof -
  let ?s = "(initial 4)\<lparr>guest := (guest (initial 4))\<lparr>kicked_avail_idx := 65530\<rparr>\<rparr>"
  have h: "total_advance 65530 [65533, 2, 10] < 65536" by simp
  have n: "need_event 0 (last [65530, 65533, 2, 10]) 65530" by code_simp
  have s: "kick_index (event ?s) = 0 \<and> ucast (kicked_avail_idx (guest ?s)) = (65530 :: u16)
     \<and> map ucast [65533, 65538, 65546 :: u32] = [65533, 2, 10 :: u16]" by code_simp
  have k: "kicks ?s = 0" by code_simp
  from need_event_telescopes [of 65530 "[65533, 2, 10]" 0 ?s "[65533, 65538, 65546]"] h n s
  have "any_step 0 65530 [65533, 2, 10]
     \<and> list_ex (\<lambda>n. need_event 0 n 65530) [65533, 2, 10]
     \<and> kicks (kick_after_each ?s [65533, 65538, 65546]) = kicks ?s + 1"
    by presburger
  with h n k show ?thesis by presburger
qed

section \<open>Signalling without progress\<close>

text \<open>
  Claim C9. \<open>need_event e n n\<close> is false for all \<open>e\<close> and \<open>n\<close>; when the monitored index
  equals the last-notified index, \<open>kick_available\<close> and \<open>call_used\<close> return the state
  unchanged; each of the two either invokes its primitive once and moves the
  last-notified index to the current index, which differs from the old value, or changes
  nothing; and no other operation touches the last-notified indices or invokes a primitive.
\<close>

theorem no_signal_without_progress:
  "\<not> need_event e n n
   \<and> (avail_idx (guest s) = kicked_avail_idx (guest s) \<longrightarrow> kick_available s = s)
   \<and> (used_idx (host s) = called_used_idx (host s) \<longrightarrow> call_used s = s)
   \<and> (kicks (kick_available s) = Suc (kicks s)
        \<and> kicked_avail_idx (guest (kick_available s)) = avail_idx (guest s)
        \<and> kicked_avail_idx (guest (kick_available s)) \<noteq> kicked_avail_idx (guest s)
      \<or> kick_available s = s)
   \<and> (calls (call_used s) = Suc (calls s)
        \<and> called_used_idx (host (call_used s)) = used_idx (host s)
        \<and> called_used_idx (host (call_used s)) \<noteq> called_used_idx (host s)
      \<or> call_used s = s)
   \<and> notified (snd (add_inbuf lenv bufv datap flagsv s)) = notified s
   \<and> notified (snd (snd (get_buf out s))) = notified s
   \<and> notified (snd (snd (use_buf out s))) = notified s
   \<and> notified (snd (enable_call s)) = notified s
   \<and> notified (snd (enable_kick s)) = notified s"
proof -
  have 1: "\<not> need_event e n n" for e n by (rule need_event_same)
  have 2: "avail_idx (guest s) = kicked_avail_idx (guest s) \<longrightarrow> kick_available s = s"
    by (simp add: kick_available_def 1)
  have 3: "used_idx (host s) = called_used_idx (host s) \<longrightarrow> call_used s = s"
    by (simp add: call_used_def 1)
  have 4: "kicks (kick_available s) = Suc (kicks s)
        \<and> kicked_avail_idx (guest (kick_available s)) = avail_idx (guest s)
        \<and> kicked_avail_idx (guest (kick_available s)) \<noteq> kicked_avail_idx (guest s)
      \<or> kick_available s = s"
    using 1 by (cases "avail_idx (guest s) = kicked_avail_idx (guest s)") (auto simp: kick_available_def)
  have 5: "calls (call_used s) = Suc (calls s)
        \<and> called_used_idx (host (call_used s)) = used_idx (host s)
        \<and> called_used_idx (host (call_used s)) \<noteq> called_used_idx (host s)
      \<or> call_used s = s"
    using 1 by (cases "used_idx (host s) = called_used_idx (host s)") (auto simp: call_used_def)
  have 6: "notified (snd (add_inbuf lenv bufv datap flagsv s)) = notified s"
    by (simp add: add_inbuf_def notified_def Let_def guest_flip_def)
  have 7: "notified (snd (snd (get_buf out s))) = notified s"
    by (simp add: get_buf_def notified_def Let_def)
  have 8: "notified (snd (snd (use_buf out s))) = notified s"
    by (simp add: use_buf_def notified_def Let_def host_flip_def)
  have 9: "notified (snd (enable_call s)) = notified s"
    by (simp add: enable_call_def notified_def Let_def)
  have 10: "notified (snd (enable_kick s)) = notified s"
    by (simp add: enable_kick_def notified_def Let_def)
  from 1 2 3 4 5 6 7 8 9 10 show ?thesis by blast
qed

theorem no_signal_without_progress_witness:
  "avail_idx (guest kicked_once) = kicked_avail_idx (guest kicked_once)
   \<and> kicks kicked_once = 1
   \<and> kick_available kicked_once = kicked_once"
proof -
  have h: "avail_idx (guest kicked_once) = kicked_avail_idx (guest kicked_once)" by code_simp
  have k: "kicks kicked_once = 1" by code_simp
  from no_signal_without_progress [of _ _ kicked_once] h k show ?thesis by blast
qed

section \<open>Initialisation\<close>

lemma initial_ring_nth:
  "i < unat rs \<Longrightarrow> ring (initial rs) ! i = \<lparr>addr = 0, len = 0, index = of_nat i, flags = 0\<rparr>"
  by (simp add: initial_def)

lemma unat_of_nat_u16: "i < 65536 \<Longrightarrow> unat (of_nat i :: u16) = i"
  by (simp add: unat_of_nat)

text \<open>
  Claim C8, amended. \<open>alloc_ring\<close> ends the process with exit status 3 when one of its
  three allocations fails and otherwise leaves the globals as \<open>initial\<close> describes: the
  ring has \<open>ring_size\<close> descriptors with flags zero, the shadow table is zeroed,
  \<open>num_free\<close> is \<open>ring_size\<close>, both wrap fields hold \<open>DESC_WRAP\<close>, and, when the ring has at
  most 65536 slots, every descriptor's \<open>index\<close> equals its position.
\<close>

theorem alloc_ring_post:
  "(alloc_ring rs a b c = (if a \<and> b \<and> c then Inr (initial rs) else Inl (Exit 3)))
   \<and> length (ring (initial rs)) = unat rs
   \<and> (unat rs \<le> 65536 \<longrightarrow> (\<forall>i < unat rs. unat (index (ring (initial rs) ! i)) = i))
   \<and> (\<forall>i < unat rs. flags (ring (initial rs) ! i) = 0)
   \<and> state.data (initial rs) = replicate (unat rs) \<lparr>buf = 0, data.data = 0\<rparr>
   \<and> num_free (guest (initial rs)) = rs
   \<and> guest.wrap (guest (initial rs)) = DESC_WRAP
   \<and> host.wrap (host (initial rs)) = DESC_WRAP"
proof -
  have 1: "alloc_ring rs a b c = (if a \<and> b \<and> c then Inr (initial rs) else Inl (Exit 3))"
    by (simp add: alloc_ring_def)
  have 2: "length (ring (initial rs)) = unat rs"
    by (simp add: initial_def)
  have 3: "unat rs \<le> 65536 \<longrightarrow> (\<forall>i < unat rs. unat (index (ring (initial rs) ! i)) = i)"
    by (simp add: initial_ring_nth unat_of_nat_u16)
  have 4: "\<forall>i < unat rs. flags (ring (initial rs) ! i) = 0"
    by (simp add: initial_ring_nth)
  have 5: "state.data (initial rs) = replicate (unat rs) \<lparr>buf = 0, data.data = 0\<rparr>"
    and 6: "num_free (guest (initial rs)) = rs"
    and 7: "guest.wrap (guest (initial rs)) = DESC_WRAP"
    and 8: "host.wrap (host (initial rs)) = DESC_WRAP"
    by (simp_all add: initial_def DESC_WRAP_def)
  from 1 2 3 4 5 6 7 8 show ?thesis by blast
qed

theorem alloc_ring_post_witness:
  "alloc_ring 4 True True True = Inr (initial 4)
   \<and> alloc_ring 4 True True False = Inl (Exit 3)
   \<and> unat (4 :: u32) \<le> 65536
   \<and> unat (index (ring (initial 4) ! 3)) = 3
   \<and> flags (ring (initial 4) ! 3) = 0"
proof -
  have h: "unat (4 :: u32) \<le> 65536" and i: "3 < unat (4 :: u32)" by simp_all
  from alloc_ring_post [of 4 True True True] alloc_ring_post [of 4 True True False] h i
  show ?thesis by simp
qed

text \<open>
  Claim C8 as stated fails on rings of more than 65536 slots: \<open>index\<close> is an
  \<open>unsigned short\<close>, so the descriptor at position 65536 gets the identifier 0.
\<close>

theorem alloc_ring_large_counterexample:
  "alloc_ring 0x20000 True True True = Inr (initial 0x20000)
   \<and> 65536 < unat (ring_size (initial 0x20000))
   \<and> unat (index (ring (initial 0x20000) ! 65536)) \<noteq> 65536"
proof -
  have "(65536 :: nat) < unat (0x20000 :: u32)" by simp
  then have "ring (initial 0x20000) ! 65536 = \<lparr>addr = 0, len = 0, index = of_nat 65536, flags = 0\<rparr>"
    by (rule initial_ring_nth)
  moreover have "ring_size (initial 0x20000) = 0x20000" by (simp add: initial_def)
  ultimately show ?thesis by (simp add: alloc_ring_def)
qed

section \<open>The operations in closed form\<close>

text \<open>
  \<open>add_inbuf\<close> and \<open>use_buf\<close> write a descriptor in two steps; the two writes amount to
  one update of the slot.
\<close>

lemma map_update_same:
  "(\<And>x. f (g x) = f x) \<Longrightarrow> map f (xs[h := g (xs ! h)]) = map f xs"
  by (cases "h < length xs") (simp_all add: map_update list_update_same_conv list_update_beyond)

lemma ids_update:
  "map index (xs[h := (xs ! h)\<lparr>addr := b, len := l\<rparr>]) = map index xs"
  "map index (xs[h := (xs ! h)\<lparr>len := l\<rparr>]) = map index xs"
  "map index (xs[h := (xs ! h)\<lparr>flags := w\<rparr>]) = map index xs"
proof -
  show "map index (xs[h := (xs ! h)\<lparr>addr := b, len := l\<rparr>]) = map index xs"
    by (rule map_update_same) simp
  show "map index (xs[h := (xs ! h)\<lparr>len := l\<rparr>]) = map index xs"
    by (rule map_update_same) simp
  show "map index (xs[h := (xs ! h)\<lparr>flags := w\<rparr>]) = map index xs"
    by (rule map_update_same) simp
qed

lemma add_inbuf_eq:
  "add_inbuf lenv bufv datap flagsv s =
     (if num_free (guest s) = 0 then (- 1, s)
      else
        let h = unat ((ring_size s - 1) AND avail_idx (guest s));
            g = (guest s)\<lparr>num_free := num_free (guest s) - 1,
                          avail_idx := avail_idx (guest s) + 1\<rparr>;
            g' = (if (ring_size s - 1) AND avail_idx (guest s) = 0 then guest_flip g else g)
        in (0, s\<lparr>guest := g',
                 ring := (ring s)[h := (ring s ! h)\<lparr>addr := bufv, len := lenv,
                                                    flags := DESC_HW OR guest.wrap g'\<rparr>],
                 state.data := (state.data s)[unat (index (ring s ! h)) :=
                                                \<lparr>buf = bufv, data.data = datap\<rparr>]\<rparr>))"
proof (cases "unat ((ring_size s - 1) AND avail_idx (guest s)) < length (ring s)")
  case True
  then show ?thesis by (simp add: add_inbuf_def Let_def)
next
  case False
  then show ?thesis by (simp add: add_inbuf_def Let_def list_update_beyond)
qed

lemma use_buf_eq:
  "use_buf out s =
     (let h = unat ((ring_size s - 1) AND used_idx (host s));
          h1 = (if (ring_size s - 1) AND used_idx (host s) = 0 then host_flip (host s) else host s)
      in if flags (ring s ! h) AND DESC_HW = 0 \<or> flags (ring s ! h) AND DESC_WRAP \<noteq> host.wrap h1
         then (False, out, s\<lparr>host := h1\<rparr>)
         else (True, out\<lparr>flagsp := flags (ring s ! h)\<rparr>,
               s\<lparr>host := h1\<lparr>used_idx := used_idx h1 + 1\<rparr>,
                 ring := (ring s)[h := (ring s ! h)\<lparr>len := len (ring s ! h) - 1,
                            flags := (if host.wrap h1 \<noteq> 0 then DESC_WRAP else 0)\<rparr>]\<rparr>))"
proof (cases "unat ((ring_size s - 1) AND used_idx (host s)) < length (ring s)")
  case True
  then show ?thesis by (simp add: use_buf_def Let_def)
next
  case False
  then show ?thesis by (simp add: use_buf_def Let_def list_update_beyond)
qed

lemma ids_update2:
  "map index (xs[h := (xs ! h)\<lparr>addr := b, len := l, flags := w\<rparr>]) = map index xs"
  "map index (xs[h := (xs ! h)\<lparr>len := l, flags := w\<rparr>]) = map index xs"
proof -
  show "map index (xs[h := (xs ! h)\<lparr>addr := b, len := l, flags := w\<rparr>]) = map index xs"
    by (rule map_update_same) simp
  show "map index (xs[h := (xs ! h)\<lparr>len := l, flags := w\<rparr>]) = map index xs"
    by (rule map_update_same) simp
qed

lemma add_inbuf_ids: "map index (ring (snd (add_inbuf lenv bufv datap flagsv s))) = map index (ring s)"
  by (simp add: add_inbuf_eq Let_def ids_update2)

lemma use_buf_ids: "map index (ring (snd (snd (use_buf out s)))) = map index (ring s)"
  by (simp add: use_buf_eq Let_def ids_update2)

section \<open>Slot identifiers\<close>

lemma step_ids: "map index (ring (step x s)) = map index (ring s)"
  by (cases x)
    (simp_all add: add_inbuf_ids use_buf_ids get_buf_def enable_call_def enable_kick_def
      disable_call_def disable_kick_def kick_available_def call_used_def Let_def)

lemma step_ring_size: "ring_size (step x s) = ring_size s"
  by (cases x)
    (simp_all add: add_inbuf_def use_buf_def get_buf_def enable_call_def enable_kick_def
      disable_call_def disable_kick_def kick_available_def call_used_def Let_def)

lemma run_ids: "map index (ring (run xs s)) = map index (ring s)"
  by (induction xs arbitrary: s) (simp_all add: step_ids)

lemma run_ring_size: "ring_size (run xs s) = ring_size s"
  by (induction xs arbitrary: s) (simp_all add: step_ring_size)

lemma run_index_nth:
  assumes "i < unat rs"
  shows "index (ring (run xs (initial rs)) ! i) = of_nat i"
proof -
  have l: "length (map index (ring (run xs (initial rs)))) = unat rs"
    by (simp add: run_ids initial_def)
  then have "i < length (ring (run xs (initial rs)))" using assms by simp
  then have "index (ring (run xs (initial rs)) ! i) = map index (ring (run xs (initial rs))) ! i"
    by simp
  also have "\<dots> = map index (ring (initial rs)) ! i" by (simp only: run_ids)
  also have "\<dots> = of_nat i" using assms by (simp add: initial_def)
  finally show ?thesis .
qed

lemma head_less:
  fixes rs x :: u32
  assumes "0 < unat rs"
  shows "unat ((rs - 1) AND x) < unat rs"
proof -
  have "(rs - 1) AND x \<le> rs - 1" by (rule word_and_le2)
  then have "unat ((rs - 1) AND x) \<le> unat (rs - 1)" by (simp add: word_le_nat_alt)
  moreover have "unat (rs - 1) = unat rs - 1"
    using assms unat_minus_one [of rs] unat_gt_0 [of rs] by simp
  ultimately show ?thesis using assms by simp
qed

lemma ucast_small:
  fixes h :: u32
  assumes "unat h < 65536"
  shows "(ucast (ucast h :: u16) :: u32) = h"
proof -
  have down: "unat (ucast h :: u16) = take_bit LENGTH(16) (unat h)"
    by (rule unsigned_ucast_eq)
  have up: "unat (ucast (ucast h :: u16) :: u32) = take_bit LENGTH(32) (unat (ucast h :: u16))"
    by (rule unsigned_ucast_eq)
  have 1: "take_bit LENGTH(16) (unat h) = unat h"
    using assms by (simp add: take_bit_nat_eq_self)
  have 2: "take_bit LENGTH(32) (unat h) = unat h"
    using assms by (simp add: take_bit_nat_eq_self)
  have "unat (ucast (ucast h :: u16) :: u32) = unat h"
    by (simp only: up down 1 2)
  then show ?thesis by (simp only: word_unat_eq_iff)
qed

lemma and_again: "(m AND x) AND m = m AND x" for m x :: u32
  by (metis and.assoc and.commute and.idem)

lemma get_buf_index_head:
  assumes "0 < unat (ring_size s)" "unat (ring_size s) \<le> 65536"
    and "\<forall>i < unat (ring_size s). index (ring s ! i) = of_nat i"
  shows "get_buf_index s = get_buf_head s"
proof -
  let ?h = "(ring_size s - 1) AND last_used_idx (guest s)"
  have lt: "unat ?h < unat (ring_size s)" using assms(1) by (rule head_less)
  then have "index (ring s ! unat ?h) = ucast ?h" using assms(3) by simp
  moreover have "(ucast (ucast ?h :: u16) :: u32) = ?h"
    using lt assms(2) by (intro ucast_small) simp
  ultimately have "get_buf_index s = unat (?h AND (ring_size s - 1))"
    by (simp only: get_buf_index_def get_buf_head_def)
  then show ?thesis by (simp only: and_again get_buf_head_def)
qed

text \<open>
  Claim C10, amended. No operation of either endpoint changes the \<open>index\<close> field of any
  descriptor; on a ring of at least one and at most 65536 slots, in every state reached
  from the initial one the descriptor at position \<open>i\<close> carries the identifier \<open>i\<close>, and
  the shadow entry that \<open>get_buf\<close> consults is the one at the position of the slot it
  reclaims.
\<close>

theorem slot_ids_stable:
  "map index (ring (run xs (initial rs))) = map index (ring (initial rs))
   \<and> (0 < unat rs \<and> unat rs \<le> 65536 \<longrightarrow>
        (\<forall>i < unat rs. unat (index (ring (run xs (initial rs)) ! i)) = i)
        \<and> get_buf_index (run xs (initial rs)) = get_buf_head (run xs (initial rs)))"
proof -
  have 1: "map index (ring (run xs (initial rs))) = map index (ring (initial rs))"
    by (rule run_ids)
  have 2: "\<forall>i < unat rs. unat (index (ring (run xs (initial rs)) ! i)) = i"
    if "unat rs \<le> 65536"
    using that by (simp add: run_index_nth unat_of_nat_u16)
  have 3: "get_buf_index (run xs (initial rs)) = get_buf_head (run xs (initial rs))"
    if "0 < unat rs" "unat rs \<le> 65536"
  proof (rule get_buf_index_head)
    have rs: "ring_size (run xs (initial rs)) = rs"
      by (simp add: run_ring_size initial_def)
    show "0 < unat (ring_size (run xs (initial rs)))" using that rs by simp
    show "unat (ring_size (run xs (initial rs))) \<le> 65536" using that rs by simp
    show "\<forall>i < unat (ring_size (run xs (initial rs))).
            index (ring (run xs (initial rs)) ! i) = of_nat i"
      using rs by (simp add: run_index_nth)
  qed
  from 1 2 3 show ?thesis by blast
qed

theorem slot_ids_stable_witness:
  "0 < unat (2 :: u32) \<and> unat (2 :: u32) \<le> 65536
   \<and> unat (index (ring (run lap (initial 2)) ! 1)) = 1
   \<and> get_buf_index (run lap (initial 2)) = get_buf_head (run lap (initial 2))
   \<and> get_buf_head (run lap (initial 2)) = 1"
proof -
  have h: "0 < unat (2 :: u32) \<and> unat (2 :: u32) \<le> 65536" and i: "1 < unat (2 :: u32)"
    by simp_all
  have g: "get_buf_head (run lap (initial 2)) = 1" by code_simp
  from slot_ids_stable [of lap 2] h i g show ?thesis by simp
qed

text \<open>
  Claim C10 as stated fails on rings of more than 65536 slots, already in the initial
  state: position 65536 carries the identifier 0.
\<close>

theorem slot_ids_large_counterexample:
  "65536 < unat (ring_size (run [] (initial 0x20000)))
   \<and> unat (index (ring (run [] (initial 0x20000)) ! 65536)) \<noteq> 65536"
proof -
  have "(65536 :: nat) < unat (0x20000 :: u32)" by simp
  then have "ring (initial 0x20000) ! 65536 = \<lparr>addr = 0, len = 0, index = of_nat 65536, flags = 0\<rparr>"
    by (rule initial_ring_nth)
  moreover have "ring_size (initial 0x20000) = 0x20000" by (simp add: initial_def)
  ultimately show ?thesis by simp
qed

subsection \<open>Array accesses\<close>

text \<open>
  The model reads and writes the arrays as lists. On a ring of at least one slot every
  access of a run is in range: the three \<open>head\<close> values are masked with \<open>ring_size - 1\<close>,
  the shadow index of \<open>add_inbuf\<close> is a slot identifier and that of \<open>get_buf\<close> is masked.
\<close>

lemma step_lengths:
  "length (ring (step x s)) = length (ring s)
   \<and> length (state.data (step x s)) = length (state.data s)"
  by (cases x)
    (simp_all add: add_inbuf_eq use_buf_eq get_buf_def enable_call_def enable_kick_def
      disable_call_def disable_kick_def kick_available_def call_used_def Let_def)

lemma run_lengths:
  "length (ring (run xs s)) = length (ring s)
   \<and> length (state.data (run xs s)) = length (state.data s)"
  by (induction xs arbitrary: s) (simp_all add: step_lengths)

lemma accesses_in_range:
  assumes "0 < unat rs"
  shows "unat ((ring_size (run xs (initial rs)) - 1) AND x) < length (ring (run xs (initial rs)))"
    and "i < length (ring (run xs (initial rs))) \<Longrightarrow>
           unat (index (ring (run xs (initial rs)) ! i)) < length (state.data (run xs (initial rs)))"
    and "get_buf_index (run xs (initial rs)) < length (state.data (run xs (initial rs)))"
proof -
  let ?s = "run xs (initial rs)"
  have rs: "ring_size ?s = rs" by (simp add: run_ring_size initial_def)
  have lr: "length (ring ?s) = unat rs" and ld: "length (state.data ?s) = unat rs"
    by (simp_all add: run_lengths initial_def)
  show "unat ((ring_size ?s - 1) AND x) < length (ring ?s)"
    using head_less [OF assms] by (simp add: rs lr)
  show "unat (index (ring ?s ! i)) < length (state.data ?s)" if "i < length (ring ?s)"
  proof -
    have "i < unat rs" using that by (simp add: lr)
    then have "index (ring ?s ! i) = of_nat i" by (rule run_index_nth)
    then have "unat (index (ring ?s ! i)) = i mod 2 ^ LENGTH(16)"
      by (simp only: unat_of_nat)
    moreover have "i mod 2 ^ LENGTH(16) \<le> i" by (rule mod_less_eq_dividend)
    ultimately show ?thesis using \<open>i < unat rs\<close> by (simp add: ld)
  qed
  have "unat (y AND (rs - 1)) < unat rs" for y :: u32
    using head_less [OF assms, of y] by (simp add: and.commute)
  then show "get_buf_index ?s < length (state.data ?s)"
    by (simp add: get_buf_index_def rs ld)
qed

section \<open>Failed polls and completion\<close>

text \<open>
  Claim C7 at a failing input. On a fresh ring of four slots \<open>use_buf\<close> returns false and
  has flipped \<open>host.wrap\<close> from \<open>0x40\<close> to 0, because the flip at \<open>head == 0\<close> comes before
  the ownership test; and \<open>get_buf\<close> returns \<open>NULL\<close> and has raised \<open>num_free\<close> from 4 to 5
  and \<open>last_used_idx\<close> from 0 to 1, because a slot that was never published has
  \<open>DESC_HW\<close> clear.
\<close>

theorem failed_poll_changes_state:
  "fst (use_buf out0 (initial 4)) = False
   \<and> host.wrap (host (initial 4)) = 0x40
   \<and> host.wrap (host (snd (snd (use_buf out0 (initial 4))))) = 0
   \<and> fst (get_buf out0 (initial 4)) = 0
   \<and> num_free (guest (initial 4)) = 4
   \<and> num_free (guest (snd (snd (get_buf out0 (initial 4))))) = 5
   \<and> last_used_idx (guest (snd (snd (get_buf out0 (initial 4))))) = 1"
  by code_simp

text \<open>
  Claim C5 at a failing input. After one poll of the empty ring, which rightly reports
  it empty, the guest publishes into slot 0 with \<open>DESC_HW\<close> and its current wrap value;
  the next \<open>use_buf\<close> flips \<open>host.wrap\<close> once more and rejects the slot as if it were stale.
  Without the earlier poll the same slot is accepted, and three laps in which \<open>use_buf\<close>
  is only called on published slots complete and return all six buffers.
\<close>

theorem use_buf_rejects_published_slot:
  "fst (use_buf out0 (initial 4)) = False
   \<and> fst (add_inbuf 8 0x1000 0xA 0 (run [Use_buf] (initial 4))) = 0
   \<and> avail_empty (run [Use_buf, Add_inbuf 8 0x1000 0xA 0] (initial 4)) = False
   \<and> flags (ring (run [Use_buf, Add_inbuf 8 0x1000 0xA 0] (initial 4)) ! 0)
       = DESC_HW OR guest.wrap (guest (run [Use_buf, Add_inbuf 8 0x1000 0xA 0] (initial 4)))
   \<and> fst (use_buf out0 (run [Use_buf, Add_inbuf 8 0x1000 0xA 0] (initial 4))) = False
   \<and> fst (use_buf out0 (run [Add_inbuf 8 0x1000 0xA 0] (initial 4))) = True
   \<and> reclaimed three_laps (initial 2) = [1, 2, 3, 4, 5, 6]"
  by code_simp

lemma use_buf_outs: "lenp (fst (snd (use_buf out s))) = lenp out \<and> bufp (fst (snd (use_buf out s))) = bufp out"
  by (simp add: use_buf_def Let_def)

text \<open>
  Claim C6 at a failing input. \<open>use_buf\<close> never writes through \<open>lenp\<close> and \<open>bufp\<close>: after
  a successful call on a slot of length 8 and address \<open>0x1000\<close> the caller's variables
  still hold what they held before, and only \<open>*flags\<close> has been set.
\<close>

theorem use_buf_leaves_len_and_buf:
  "lenp (fst (snd (use_buf out s))) = lenp out
   \<and> bufp (fst (snd (use_buf out s))) = bufp out
   \<and> len (ring (run [Add_inbuf 8 0x1000 0xA 0] (initial 4)) ! 0) = 8
   \<and> addr (ring (run [Add_inbuf 8 0x1000 0xA 0] (initial 4)) ! 0) = 0x1000
   \<and> fst (use_buf \<lparr>lenp = 0xAAAA, bufp = 0xBBBB, flagsp = 0\<rparr>
            (run [Add_inbuf 8 0x1000 0xA 0] (initial 4))) = True
   \<and> fst (snd (use_buf \<lparr>lenp = 0xAAAA, bufp = 0xBBBB, flagsp = 0\<rparr>
            (run [Add_inbuf 8 0x1000 0xA 0] (initial 4))))
       = \<lparr>lenp = 0xAAAA, bufp = 0xBBBB, flagsp = 0x80\<rparr>"
proof -
  have "len (ring (run [Add_inbuf 8 0x1000 0xA 0] (initial 4)) ! 0) = 8
   \<and> addr (ring (run [Add_inbuf 8 0x1000 0xA 0] (initial 4)) ! 0) = 0x1000
   \<and> fst (use_buf \<lparr>lenp = 0xAAAA, bufp = 0xBBBB, flagsp = 0\<rparr>
            (run [Add_inbuf 8 0x1000 0xA 0] (initial 4))) = True
   \<and> fst (snd (use_buf \<lparr>lenp = 0xAAAA, bufp = 0xBBBB, flagsp = 0\<rparr>
            (run [Add_inbuf 8 0x1000 0xA 0] (initial 4))))
       = \<lparr>lenp = 0xAAAA, bufp = 0xBBBB, flagsp = 0x80\<rparr>"
    by code_simp
  then show ?thesis using use_buf_outs [of out s] by blast
qed

section \<open>The ring invariant\<close>

lemma slot_mod:
  assumes "k < 32"
  shows "unat (((2 :: u32) ^ k - 1) AND of_nat J) = J mod 2 ^ k"
proof -
  have "((2 :: u32) ^ k - 1) AND of_nat J = take_bit k (of_nat J :: u32)"
    by (simp add: take_bit_eq_mask mask_eq_exp_minus_1 and.commute)
  then have "unat (((2 :: u32) ^ k - 1) AND of_nat J) = take_bit k (unat (of_nat J :: u32))"
    by (simp only: unsigned_take_bit_eq)
  also have "\<dots> = (J mod 2 ^ LENGTH(32)) mod 2 ^ k"
    by (simp only: take_bit_eq_mod unat_of_nat)
  also have "\<dots> = J mod 2 ^ k"
  proof (rule mod_mod_cancel)
    show "(2 :: nat) ^ k dvd 2 ^ LENGTH(32)"
      using assms by (intro le_imp_power_dvd) simp
  qed
  finally show ?thesis .
qed

lemma pow_less:
  assumes "k < 32"
  shows "(2 :: nat) ^ k < 4294967296"
proof -
  have "(2 :: nat) ^ k < 2 ^ 32"
    using assms by (intro power_strict_increasing) simp_all
  then show ?thesis by simp
qed

lemma of_nat_small_eq:
  assumes "x < 4294967296" "y < 4294967296"
  shows "((of_nat x :: u32) = of_nat y) = (x = y)"
proof
  assume "(of_nat x :: u32) = of_nat y"
  then have "unat (of_nat x :: u32) = unat (of_nat y :: u32)" by simp
  then show "x = y" using assms by (simp add: unat_of_nat)
qed simp

lemma mod_apart:
  fixes a j N :: nat
  assumes "a < j" "j < a + N"
  shows "j mod N \<noteq> a mod N"
proof
  assume e: "j mod N = a mod N"
  have "(j - a) mod N = 0"
    using e assms(1) by (metis mod_eq_dvd_iff_nat less_imp_le_nat dvd_imp_mod_0)
  moreover have "0 < j - a" "j - a < N" using assms by simp_all
  ultimately show False by simp
qed

lemma hw_set: "(DESC_HW OR w) AND DESC_HW \<noteq> 0"
proof -
  have "(DESC_HW OR w) AND DESC_HW = DESC_HW"
    by (simp add: word_ao_absorbs and.commute)
  then show ?thesis by (simp add: DESC_HW_def)
qed

lemma DESC_HW_nz: "DESC_HW \<noteq> 0"
  by (simp add: DESC_HW_def)

lemma hw_clear: "(if c then DESC_WRAP else 0) AND DESC_HW = 0"
  by (simp add: DESC_HW_def DESC_WRAP_def)

lemma add_inbuf_fields:
  assumes "num_free (guest s) \<noteq> 0"
  shows "ring_size (snd (add_inbuf lenv bufv datap flagsv s)) = ring_size s"
    and "length (ring (snd (add_inbuf lenv bufv datap flagsv s))) = length (ring s)"
    and "last_used_idx (guest (snd (add_inbuf lenv bufv datap flagsv s))) = last_used_idx (guest s)"
    and "avail_idx (guest (snd (add_inbuf lenv bufv datap flagsv s))) = avail_idx (guest s) + 1"
    and "num_free (guest (snd (add_inbuf lenv bufv datap flagsv s))) = num_free (guest s) - 1"
    and "host (snd (add_inbuf lenv bufv datap flagsv s)) = host s"
    and "fst (add_inbuf lenv bufv datap flagsv s) = 0"
  using assms by (simp_all add: add_inbuf_eq Let_def guest_flip_def)

lemma add_inbuf_hw:
  assumes "num_free (guest s) \<noteq> 0"
    and "unat ((ring_size s - 1) AND avail_idx (guest s)) = h" and "h < length (ring s)"
  shows "hw (snd (add_inbuf lenv bufv datap flagsv s)) i = (i = h \<or> hw s i)"
proof (cases "i = h")
  case True
  then show ?thesis
    using assms by (simp add: add_inbuf_eq Let_def hw_def DESC_HW_nz)
next
  case False
  then show ?thesis
    using assms by (simp add: add_inbuf_eq Let_def hw_def)
qed

lemma add_inbuf_full:
  "num_free (guest s) = 0 \<Longrightarrow> add_inbuf lenv bufv datap flagsv s = (- 1, s)"
  by (simp add: add_inbuf_def)

lemma lap_host_used_idx: "used_idx (lap_host s) = used_idx (host s)"
  by (simp add: lap_host_def host_flip_def)

lemma use_buf_cases:
  "use_buf out s =
     (if use_buf_ok s
      then (True, out\<lparr>flagsp := flags (ring s ! use_buf_head s)\<rparr>,
            s\<lparr>host := (lap_host s)\<lparr>used_idx := used_idx (host s) + 1\<rparr>,
              ring := (ring s)[use_buf_head s := (ring s ! use_buf_head s)
                         \<lparr>len := len (ring s ! use_buf_head s) - 1,
                          flags := (if host.wrap (lap_host s) \<noteq> 0 then DESC_WRAP else 0)\<rparr>]\<rparr>)
      else (False, out, s\<lparr>host := lap_host s\<rparr>))"
  by (simp add: use_buf_eq Let_def lap_host_def use_buf_head_def use_buf_ok_def host_flip_def)

lemma use_buf_fst: "fst (use_buf out s) = use_buf_ok s"
  by (simp add: use_buf_cases)

lemma use_buf_fails:
  assumes "\<not> fst (use_buf out s)"
  shows "ring_size (snd (snd (use_buf out s))) = ring_size s"
    and "ring (snd (snd (use_buf out s))) = ring s"
    and "guest (snd (snd (use_buf out s))) = guest s"
    and "state.data (snd (snd (use_buf out s))) = state.data s"
    and "used_idx (host (snd (snd (use_buf out s)))) = used_idx (host s)"
    and "fst (snd (use_buf out s)) = out"
proof -
  from assms have "\<not> use_buf_ok s" by (simp add: use_buf_fst)
  then have "use_buf out s = (False, out, s\<lparr>host := lap_host s\<rparr>)"
    by (simp add: use_buf_cases)
  then show "ring_size (snd (snd (use_buf out s))) = ring_size s"
    and "ring (snd (snd (use_buf out s))) = ring s"
    and "guest (snd (snd (use_buf out s))) = guest s"
    and "state.data (snd (snd (use_buf out s))) = state.data s"
    and "used_idx (host (snd (snd (use_buf out s)))) = used_idx (host s)"
    and "fst (snd (use_buf out s)) = out"
    by (simp_all add: lap_host_used_idx)
qed

lemma use_buf_succeeds:
  assumes "fst (use_buf out s)"
  shows "ring_size (snd (snd (use_buf out s))) = ring_size s"
    and "length (ring (snd (snd (use_buf out s)))) = length (ring s)"
    and "guest (snd (snd (use_buf out s))) = guest s"
    and "state.data (snd (snd (use_buf out s))) = state.data s"
    and "used_idx (host (snd (snd (use_buf out s)))) = used_idx (host s) + 1"
    and "hw s (use_buf_head s)"
    and "ring (snd (snd (use_buf out s))) = (ring s)[use_buf_head s := (ring s ! use_buf_head s)
                         \<lparr>len := len (ring s ! use_buf_head s) - 1,
                          flags := (if host.wrap (lap_host s) \<noteq> 0 then DESC_WRAP else 0)\<rparr>]"
proof -
  from assms have ok: "use_buf_ok s" by (simp add: use_buf_fst)
  then show "hw s (use_buf_head s)" by (simp add: use_buf_ok_def hw_def)
  from ok show "ring_size (snd (snd (use_buf out s))) = ring_size s"
    and "length (ring (snd (snd (use_buf out s)))) = length (ring s)"
    and "guest (snd (snd (use_buf out s))) = guest s"
    and "state.data (snd (snd (use_buf out s))) = state.data s"
    and "used_idx (host (snd (snd (use_buf out s)))) = used_idx (host s) + 1"
    and "ring (snd (snd (use_buf out s))) = (ring s)[use_buf_head s := (ring s ! use_buf_head s)
                         \<lparr>len := len (ring s ! use_buf_head s) - 1,
                          flags := (if host.wrap (lap_host s) \<noteq> 0 then DESC_WRAP else 0)\<rparr>]"
    by (simp_all add: use_buf_cases)
qed

lemma use_buf_hw:
  assumes "fst (use_buf out s)" and "use_buf_head s < length (ring s)"
  shows "hw (snd (snd (use_buf out s))) i = (i \<noteq> use_buf_head s \<and> hw s i)"
proof (cases "i = use_buf_head s")
  case True
  then show ?thesis
    using assms(2) by (simp add: use_buf_succeeds(7) [OF assms(1)] hw_def hw_clear)
next
  case False
  then show ?thesis
    by (simp add: use_buf_succeeds(7) [OF assms(1)] hw_def)
qed

lemma get_buf_blocked:
  "hw s (get_buf_head s) \<Longrightarrow> get_buf out s = (0, out, s)"
  by (simp add: get_buf_def hw_def)

lemma get_buf_takes:
  assumes "\<not> hw s (get_buf_head s)"
  shows "ring_size (snd (snd (get_buf out s))) = ring_size s"
    and "ring (snd (snd (get_buf out s))) = ring s"
    and "host (snd (snd (get_buf out s))) = host s"
    and "avail_idx (guest (snd (snd (get_buf out s)))) = avail_idx (guest s)"
    and "last_used_idx (guest (snd (snd (get_buf out s)))) = last_used_idx (guest s) + 1"
    and "num_free (guest (snd (snd (get_buf out s)))) = num_free (guest s) + 1"
    and "fst (get_buf out s) = data.data (state.data s ! get_buf_index s)"
    and "state.data (snd (snd (get_buf out s))) = (state.data s)[get_buf_index s := \<lparr>buf = 0, data.data = 0\<rparr>]"
  using assms by (simp_all add: get_buf_def Let_def hw_def)

lemma ring_inv_facts:
  assumes "ring_inv k s L U A"
  shows "k < 32" and "ring_size s = 2 ^ k" and "length (ring s) = 2 ^ k"
    and "last_used_idx (guest s) = of_nat L" and "used_idx (host s) = of_nat U"
    and "avail_idx (guest s) = of_nat A"
    and "L \<le> U" and "U \<le> A" and "A \<le> L + 2 ^ k"
    and "num_free (guest s) = of_nat (L + 2 ^ k - A)"
    and "\<And>j. U \<le> j \<Longrightarrow> j < A \<Longrightarrow> hw s (j mod 2 ^ k)"
    and "\<And>j. A \<le> j \<Longrightarrow> j < U + 2 ^ k \<Longrightarrow> \<not> hw s (j mod 2 ^ k)"
  using assms by (simp_all add: ring_inv_def)

lemma ring_invI:
  assumes "k < 32" and "ring_size s = 2 ^ k" and "length (ring s) = 2 ^ k"
    and "last_used_idx (guest s) = of_nat L" and "used_idx (host s) = of_nat U"
    and "avail_idx (guest s) = of_nat A"
    and "L \<le> U" and "U \<le> A" and "A \<le> L + 2 ^ k"
    and "num_free (guest s) = of_nat (L + 2 ^ k - A)"
    and "\<And>j. U \<le> j \<Longrightarrow> j < A \<Longrightarrow> hw s (j mod 2 ^ k)"
    and "\<And>j. A \<le> j \<Longrightarrow> j < U + 2 ^ k \<Longrightarrow> \<not> hw s (j mod 2 ^ k)"
  shows "ring_inv k s L U A"
  using assms by (simp add: ring_inv_def)

lemma ring_inv_full:
  assumes "ring_inv k s L U A"
  shows "(num_free (guest s) = 0) = (A = L + 2 ^ k)"
proof -
  note f = ring_inv_facts [OF assms]
  have "L + 2 ^ k - A \<le> 2 ^ k" using f(7,8) by simp
  then have b: "L + 2 ^ k - A < 4294967296" using pow_less [OF f(1)] by simp
  have "(num_free (guest s) = 0) = ((of_nat (L + 2 ^ k - A) :: u32) = of_nat 0)"
    by (simp add: f(10))
  also have "\<dots> = (L + 2 ^ k - A = 0)"
    using b by (intro of_nat_small_eq) simp_all
  also have "\<dots> = (A = L + 2 ^ k)" using f(9) by auto
  finally show ?thesis .
qed

lemma ring_inv_none:
  assumes "ring_inv k s L U A"
  shows "(num_free (guest s) = ring_size s) = (A = L)"
proof -
  note f = ring_inv_facts [OF assms]
  have "L + 2 ^ k - A \<le> 2 ^ k" using f(7,8) by simp
  then have b: "L + 2 ^ k - A < 4294967296" using pow_less [OF f(1)] by simp
  have "(num_free (guest s) = ring_size s) = ((of_nat (L + 2 ^ k - A) :: u32) = of_nat (2 ^ k))"
    by (simp add: f(10) f(2))
  also have "\<dots> = (L + 2 ^ k - A = 2 ^ k)"
    using b pow_less [OF f(1)] by (intro of_nat_small_eq) simp_all
  also have "\<dots> = (A = L)" using f(7,8,9) by auto
  finally show ?thesis .
qed

lemma ring_inv_add:
  assumes inv: "ring_inv k s L U A" and nf: "num_free (guest s) \<noteq> 0"
  shows "ring_inv k (snd (add_inbuf lenv bufv datap flagsv s)) L U (Suc A)"
proof -
  let ?s = "snd (add_inbuf lenv bufv datap flagsv s)"
  note f = ring_inv_facts [OF inv]
  note e = add_inbuf_fields [OF nf, of lenv bufv datap flagsv]
  have lt: "A < L + 2 ^ k" using ring_inv_full [OF inv] nf f(9) by simp
  have h: "unat ((ring_size s - 1) AND avail_idx (guest s)) = A mod 2 ^ k"
    by (simp only: f(2) f(6) slot_mod [OF f(1)])
  have hl: "A mod 2 ^ k < length (ring s)" by (simp add: f(3))
  have hw': "hw ?s i = (i = A mod 2 ^ k \<or> hw s i)" for i
    by (rule add_inbuf_hw [OF nf h hl])
  show ?thesis
  proof (rule ring_invI)
    show "k < 32" by (rule f(1))
    show "ring_size ?s = 2 ^ k" by (simp only: e f)
    show "length (ring ?s) = 2 ^ k" by (simp only: e f)
    show "last_used_idx (guest ?s) = of_nat L" by (simp only: e f)
    show "used_idx (host ?s) = of_nat U" by (simp only: e f)
    show "avail_idx (guest ?s) = of_nat (Suc A)" by (simp only: e f) simp
    show "L \<le> U" by (rule f(7))
    show "U \<le> Suc A" using f(8) by simp
    show "Suc A \<le> L + 2 ^ k" using lt by simp
    show "num_free (guest ?s) = of_nat (L + 2 ^ k - Suc A)"
    proof -
      have "L + 2 ^ k - Suc A = (L + 2 ^ k - A) - 1" by simp
      moreover have "1 \<le> L + 2 ^ k - A" using lt by simp
      ultimately have "(of_nat (L + 2 ^ k - Suc A) :: u32) = of_nat (L + 2 ^ k - A) - 1"
        by (simp only: of_nat_diff) simp
      then show ?thesis by (simp only: e f)
    qed
    show "hw ?s (j mod 2 ^ k)" if "U \<le> j" "j < Suc A" for j
    proof (cases "j = A")
      case True
      then show ?thesis by (simp add: hw')
    next
      case False
      then have "j < A" using that by simp
      then show ?thesis using f(11) [OF that(1)] by (simp add: hw')
    qed
    show "\<not> hw ?s (j mod 2 ^ k)" if "Suc A \<le> j" "j < U + 2 ^ k" for j
    proof -
      have "A < j" "j < A + 2 ^ k" using that f(8) by simp_all
      then have "j mod 2 ^ k \<noteq> A mod 2 ^ k" by (rule mod_apart)
      moreover have "\<not> hw s (j mod 2 ^ k)" using that by (intro f(12)) simp_all
      ultimately show ?thesis by (simp add: hw')
    qed
  qed
qed

lemma ring_inv_cong:
  assumes "ring_inv k s L U A"
    and "ring_size s' = ring_size s" and "ring s' = ring s"
    and "last_used_idx (guest s') = last_used_idx (guest s)"
    and "avail_idx (guest s') = avail_idx (guest s)"
    and "num_free (guest s') = num_free (guest s)"
    and "used_idx (host s') = used_idx (host s)"
  shows "ring_inv k s' L U A"
  using assms by (simp add: ring_inv_def hw_def)

lemma ring_inv_use_head:
  assumes "ring_inv k s L U A"
  shows "use_buf_head s = U mod 2 ^ k" and "use_buf_head s < length (ring s)"
proof -
  note f = ring_inv_facts [OF assms]
  show "use_buf_head s = U mod 2 ^ k"
    by (simp only: use_buf_head_def f(2) f(5) slot_mod [OF f(1)])
  then show "use_buf_head s < length (ring s)" by (simp add: f(3))
qed

lemma ring_inv_use_fail:
  assumes inv: "ring_inv k s L U A" and no: "\<not> fst (use_buf out s)"
  shows "ring_inv k (snd (snd (use_buf out s))) L U A"
  using inv by (rule ring_inv_cong) (simp_all add: use_buf_fails [OF no])

lemma ring_inv_use_pending:
  assumes inv: "ring_inv k s L U A" and ok: "fst (use_buf out s)"
  shows "U < A"
proof (rule ccontr)
  assume "\<not> U < A"
  note f = ring_inv_facts [OF inv]
  have "A \<le> U" "U < U + 2 ^ k" using \<open>\<not> U < A\<close> by simp_all
  then have "\<not> hw s (U mod 2 ^ k)" by (rule f(12))
  moreover have "hw s (U mod 2 ^ k)"
    using use_buf_succeeds(6) [OF ok] ring_inv_use_head(1) [OF inv] by simp
  ultimately show False by simp
qed

lemma ring_inv_use:
  assumes inv: "ring_inv k s L U A" and ok: "fst (use_buf out s)"
  shows "ring_inv k (snd (snd (use_buf out s))) L (Suc U) A"
proof -
  let ?s = "snd (snd (use_buf out s))"
  note f = ring_inv_facts [OF inv]
  note e = use_buf_succeeds [OF ok]
  have lt: "U < A" using inv ok by (rule ring_inv_use_pending)
  have hw': "hw ?s i = (i \<noteq> U mod 2 ^ k \<and> hw s i)" for i
    using use_buf_hw [OF ok ring_inv_use_head(2) [OF inv]] ring_inv_use_head(1) [OF inv] by simp
  show ?thesis
  proof (rule ring_invI)
    show "k < 32" by (rule f(1))
    show "ring_size ?s = 2 ^ k" by (simp only: e f)
    show "length (ring ?s) = 2 ^ k" by (simp only: e(2) f(3))
    show "last_used_idx (guest ?s) = of_nat L" by (simp only: e f)
    show "used_idx (host ?s) = of_nat (Suc U)" by (simp only: e f) simp
    show "avail_idx (guest ?s) = of_nat A" by (simp only: e f)
    show "L \<le> Suc U" using f(7) by simp
    show "Suc U \<le> A" using lt by simp
    show "A \<le> L + 2 ^ k" by (rule f(9))
    show "num_free (guest ?s) = of_nat (L + 2 ^ k - A)" by (simp only: e f)
    show "hw ?s (j mod 2 ^ k)" if "Suc U \<le> j" "j < A" for j
    proof -
      have "U < j" "j < U + 2 ^ k" using that f(7) f(9) by simp_all
      then have "j mod 2 ^ k \<noteq> U mod 2 ^ k" by (rule mod_apart)
      moreover have "hw s (j mod 2 ^ k)" using that by (intro f(11)) simp_all
      ultimately show ?thesis by (simp add: hw')
    qed
    show "\<not> hw ?s (j mod 2 ^ k)" if "A \<le> j" "j < Suc U + 2 ^ k" for j
    proof (cases "j = U + 2 ^ k")
      case True
      then show ?thesis by (simp add: hw')
    next
      case False
      then have "j < U + 2 ^ k" using that by simp
      then have "\<not> hw s (j mod 2 ^ k)" using that(1) by (intro f(12))
      then show ?thesis by (simp add: hw')
    qed
  qed
qed

lemma ring_inv_get_head:
  assumes "ring_inv k s L U A"
  shows "get_buf_head s = L mod 2 ^ k"
proof -
  note f = ring_inv_facts [OF assms]
  show ?thesis by (simp only: get_buf_head_def f(2) f(4) slot_mod [OF f(1)])
qed

lemma ring_inv_get_done:
  assumes inv: "ring_inv k s L U A" and some: "num_free (guest s) \<noteq> ring_size s"
    and free: "\<not> hw s (get_buf_head s)"
  shows "L < U"
proof (rule ccontr)
  assume "\<not> L < U"
  note f = ring_inv_facts [OF inv]
  have "L = U" using \<open>\<not> L < U\<close> f(7) by simp
  moreover have "A \<noteq> L" using ring_inv_none [OF inv] some by simp
  ultimately have "U \<le> U" "U < A" using f(8) by simp_all
  then have "hw s (U mod 2 ^ k)" by (rule f(11))
  then show False using free ring_inv_get_head [OF inv] \<open>L = U\<close> by simp
qed

lemma ring_inv_get:
  assumes inv: "ring_inv k s L U A" and some: "num_free (guest s) \<noteq> ring_size s"
    and free: "\<not> hw s (get_buf_head s)"
  shows "ring_inv k (snd (snd (get_buf out s))) (Suc L) U A"
proof -
  let ?s = "snd (snd (get_buf out s))"
  note f = ring_inv_facts [OF inv]
  note e = get_buf_takes [OF free, of out]
  have lt: "L < U" using inv some free by (rule ring_inv_get_done)
  have hw': "hw ?s i = hw s i" for i by (simp add: hw_def e)
  show ?thesis
  proof (rule ring_invI)
    show "k < 32" by (rule f(1))
    show "ring_size ?s = 2 ^ k" by (simp only: e f)
    show "length (ring ?s) = 2 ^ k" by (simp only: e f)
    show "last_used_idx (guest ?s) = of_nat (Suc L)" by (simp only: e f) simp
    show "used_idx (host ?s) = of_nat U" by (simp only: e f)
    show "avail_idx (guest ?s) = of_nat A" by (simp only: e f)
    show "Suc L \<le> U" using lt by simp
    show "U \<le> A" by (rule f(8))
    show "A \<le> Suc L + 2 ^ k" using f(9) by simp
    show "num_free (guest ?s) = of_nat (Suc L + 2 ^ k - A)"
    proof -
      have "Suc L + 2 ^ k - A = Suc (L + 2 ^ k - A)" using f(9) by simp
      then have "(of_nat (Suc L + 2 ^ k - A) :: u32) = of_nat (L + 2 ^ k - A) + 1"
        by (simp only: of_nat_Suc) simp
      then show ?thesis by (simp only: e f)
    qed
    show "hw ?s (j mod 2 ^ k)" if "U \<le> j" "j < A" for j
      using f(11) [OF that] by (simp add: hw')
    show "\<not> hw ?s (j mod 2 ^ k)" if "A \<le> j" "j < U + 2 ^ k" for j
      using f(12) [OF that] by (simp add: hw')
  qed
qed

lemma unat_pow2:
  assumes "k < 32"
  shows "unat ((2 :: u32) ^ k) = 2 ^ k"
proof -
  have "(2 :: u32) ^ k = of_nat (2 ^ k)" by simp
  then have "unat ((2 :: u32) ^ k) = (2 ^ k) mod 2 ^ LENGTH(32)"
    by (simp only: unat_of_nat)
  then show ?thesis using pow_less [OF assms] by simp
qed

lemma ring_inv_initial:
  assumes "k < 32"
  shows "ring_inv k (initial (2 ^ k)) 0 0 0"
proof (rule ring_invI)
  have n: "unat ((2 :: u32) ^ k) = 2 ^ k" using assms by (rule unat_pow2)
  show "k < 32" by (rule assms)
  show "ring_size (initial (2 ^ k)) = 2 ^ k" by (simp add: initial_def)
  show "length (ring (initial (2 ^ k))) = 2 ^ k" by (simp add: initial_def n)
  show "last_used_idx (guest (initial (2 ^ k))) = of_nat 0" by (simp add: initial_def)
  show "used_idx (host (initial (2 ^ k))) = of_nat 0" by (simp add: initial_def)
  show "avail_idx (guest (initial (2 ^ k))) = of_nat 0" by (simp add: initial_def)
  show "(0 :: nat) \<le> 0" "(0 :: nat) \<le> 0" "(0 :: nat) \<le> 0 + 2 ^ k" by simp_all
  show "num_free (guest (initial (2 ^ k))) = of_nat (0 + 2 ^ k - 0)" by (simp add: initial_def)
  show "hw (initial (2 ^ k)) (j mod 2 ^ k)" if "0 \<le> j" "j < 0" for j using that by simp
  show "\<not> hw (initial (2 ^ k)) (j mod 2 ^ k)" if "0 \<le> j" "j < 0 + 2 ^ k" for j
  proof -
    have "j mod 2 ^ k < unat ((2 :: u32) ^ k)" by (simp add: n)
    then show ?thesis by (simp add: hw_def initial_ring_nth)
  qed
qed

lemma mod_inj_window:
  fixes U N :: nat
  shows "inj_on (\<lambda>j. j mod N) {U..<U + N}"
proof (rule inj_onI)
  fix x y assume x: "x \<in> {U..<U + N}" and y: "y \<in> {U..<U + N}" and e: "x mod N = y mod N"
  show "x = y"
  proof (rule ccontr)
    assume "x \<noteq> y"
    then consider "x < y" | "y < x" by (meson nat_neq_iff)
    then show False
    proof cases
      case 1
      then have "y < x + N" using x y by simp
      with 1 have "y mod N \<noteq> x mod N" by (rule mod_apart)
      then show False using e by simp
    next
      case 2
      then have "x < y + N" using x y by simp
      with 2 have "x mod N \<noteq> y mod N" by (rule mod_apart)
      then show False using e by simp
    qed
  qed
qed

lemma mod_window_image:
  fixes U N :: nat
  assumes "0 < N"
  shows "(\<lambda>j. j mod N) ` {U..<U + N} = {..<N}"
proof (rule card_subset_eq)
  show "finite {..<N}" by simp
  show "(\<lambda>j. j mod N) ` {U..<U + N} \<subseteq> {..<N}" using assms by auto
  show "card ((\<lambda>j. j mod N) ` {U..<U + N}) = card {..<N}"
    by (simp add: card_image mod_inj_window)
qed

lemma owned_count:
  assumes inv: "ring_inv k s L U A"
  shows "owned_by_host s = A - U"
proof -
  note f = ring_inv_facts [OF inv]
  let ?N = "2 ^ k :: nat"
  let ?f = "\<lambda>j. j mod ?N"
  have sub: "{U..<A} \<subseteq> {U..<U + ?N}" using f(7) f(9) by auto
  have "{i. i < ?N \<and> hw s i} = ?f ` {U..<A}"
  proof (rule set_eqI)
    fix i
    show "(i \<in> {i. i < ?N \<and> hw s i}) = (i \<in> ?f ` {U..<A})"
    proof
      assume "i \<in> {i. i < ?N \<and> hw s i}"
      then have i: "i < ?N" and h: "hw s i" by simp_all
      from i have "i \<in> ?f ` {U..<U + ?N}" by (simp add: mod_window_image)
      then obtain j where j: "U \<le> j" "j < U + ?N" "i = j mod ?N" by auto
      have "j < A"
      proof (rule ccontr)
        assume "\<not> j < A"
        then have "\<not> hw s (j mod ?N)" using j(2) by (intro f(12)) simp_all
        then show False using h j(3) by simp
      qed
      then show "i \<in> ?f ` {U..<A}" using j by auto
    next
      assume "i \<in> ?f ` {U..<A}"
      then obtain j where j: "U \<le> j" "j < A" "i = j mod ?N" by auto
      then show "i \<in> {i. i < ?N \<and> hw s i}" using f(11) [OF j(1,2)] by simp
    qed
  qed
  moreover have "card (?f ` {U..<A}) = card {U..<A}"
    by (intro card_image inj_on_subset [OF mod_inj_window sub])
  moreover have "owned_by_host s = card {i. i < ?N \<and> hw s i}"
    by (simp add: owned_by_host_def length_filter_conv_card hw_def f(3))
  ultimately show ?thesis by simp
qed

lemma ring_inv_conserved:
  assumes inv: "ring_inv k s L U A"
  shows "unat (num_free (guest s)) + owned_by_host s
           + unat (used_idx (host s) - last_used_idx (guest s)) = 2 ^ k"
proof -
  note f = ring_inv_facts [OF inv]
  have b: "(2 :: nat) ^ k < 4294967296" by (rule pow_less [OF f(1)])
  have "unat (num_free (guest s)) = (L + 2 ^ k - A) mod 2 ^ LENGTH(32)"
    by (simp only: f(10) unat_of_nat)
  then have 1: "unat (num_free (guest s)) = L + 2 ^ k - A"
    using b f(7) f(8) by simp
  have "used_idx (host s) - last_used_idx (guest s) = of_nat (U - L)"
    using f(7) by (simp only: f(4) f(5) of_nat_diff)
  then have "unat (used_idx (host s) - last_used_idx (guest s)) = (U - L) mod 2 ^ LENGTH(32)"
    by (simp only: unat_of_nat)
  then have 2: "unat (used_idx (host s) - last_used_idx (guest s)) = U - L"
    using b f(8) f(9) by simp
  show ?thesis using 1 2 owned_count [OF inv] f(7) f(8) f(9) by simp
qed

lemma ring_inv_step:
  assumes inv: "ring_inv k s L U A"
    and g: "x = Get_buf \<Longrightarrow> num_free (guest s) \<noteq> ring_size s"
  shows "\<exists>L' U' A'. ring_inv k (step x s) L' U' A'"
proof (cases x)
  case (Add_inbuf lenv bufv datap flagsv)
  show ?thesis
  proof (cases "num_free (guest s) = 0")
    case True
    then have "ring_inv k (step x s) L U A"
      using inv by (simp add: Add_inbuf add_inbuf_full)
    then show ?thesis by blast
  next
    case False
    have "ring_inv k (step x s) L U (Suc A)"
      using ring_inv_add [OF inv False, of lenv bufv datap flagsv] by (simp add: Add_inbuf)
    then show ?thesis by blast
  qed
next
  case Get_buf
  show ?thesis
  proof (cases "hw s (get_buf_head s)")
    case True
    then have "ring_inv k (step x s) L U A"
      using inv by (simp add: Get_buf get_buf_blocked)
    then show ?thesis by blast
  next
    case False
    have "ring_inv k (step x s) (Suc L) U A"
      using ring_inv_get [OF inv g [OF Get_buf] False, of out0] by (simp add: Get_buf)
    then show ?thesis by blast
  qed
next
  case Use_buf
  show ?thesis
  proof (cases "fst (use_buf out0 s)")
    case True
    have "ring_inv k (step x s) L (Suc U) A"
      using ring_inv_use [OF inv True] by (simp add: Use_buf)
    then show ?thesis by blast
  next
    case False
    have "ring_inv k (step x s) L U A"
      using ring_inv_use_fail [OF inv False] by (simp add: Use_buf)
    then show ?thesis by blast
  qed
next
  case Enable_call
  have "ring_inv k (step x s) L U A"
    using inv by (rule ring_inv_cong) (simp_all add: Enable_call enable_call_def Let_def)
  then show ?thesis by blast
next
  case Disable_call
  then have "ring_inv k (step x s) L U A" using inv by (simp add: disable_call_def)
  then show ?thesis by blast
next
  case Kick_available
  have "ring_inv k (step x s) L U A"
    using inv by (rule ring_inv_cong) (simp_all add: Kick_available kick_available_def)
  then show ?thesis by blast
next
  case Enable_kick
  have "ring_inv k (step x s) L U A"
    using inv by (rule ring_inv_cong) (simp_all add: Enable_kick enable_kick_def Let_def)
  then show ?thesis by blast
next
  case Disable_kick
  then have "ring_inv k (step x s) L U A" using inv by (simp add: disable_kick_def)
  then show ?thesis by blast
next
  case Call_used
  have "ring_inv k (step x s) L U A"
    using inv by (rule ring_inv_cong) (simp_all add: Call_used call_used_def)
  then show ?thesis by blast
qed

lemma ring_inv_run:
  "ring_inv k s L U A \<Longrightarrow> reclaim_guarded xs s \<Longrightarrow> \<exists>L' U' A'. ring_inv k (run xs s) L' U' A'"
proof (induction xs arbitrary: s L U A)
  case Nil
  then show ?case by auto
next
  case (Cons x xs)
  have "\<exists>L' U' A'. ring_inv k (step x s) L' U' A'"
    using Cons.prems by (intro ring_inv_step) (simp_all split: if_splits)
  then obtain L' U' A' where "ring_inv k (step x s) L' U' A'" by blast
  moreover have "reclaim_guarded xs (step x s)" using Cons.prems by simp
  ultimately show ?case using Cons.IH by simp
qed

lemma step_balance:
  "num_free (guest (step x s)) + in_flight (step x s) = num_free (guest s) + in_flight s
   \<and> ring_size (step x s) = ring_size s"
proof (cases x)
  case (Add_inbuf lenv bufv datap flagsv)
  then show ?thesis
    by (cases "num_free (guest s) = 0")
      (simp_all add: add_inbuf_full add_inbuf_fields in_flight_def)
next
  case Get_buf
  then show ?thesis
    by (cases "hw s (get_buf_head s)")
      (simp_all add: get_buf_blocked get_buf_takes in_flight_def)
next
  case Use_buf
  then show ?thesis
    by (cases "fst (use_buf out0 s)")
      (simp_all add: use_buf_fails use_buf_succeeds in_flight_def)
qed (simp_all add: in_flight_def enable_call_def enable_kick_def disable_call_def
      disable_kick_def kick_available_def call_used_def Let_def)

lemma run_balance:
  "num_free (guest (run xs s)) + in_flight (run xs s) = num_free (guest s) + in_flight s"
  by (induction xs arbitrary: s) (simp_all add: step_balance)

lemma add_inbuf_result:
  "(fst (add_inbuf lenv bufv datap flagsv s) = - 1) = (num_free (guest s) = 0)"
  "(fst (add_inbuf lenv bufv datap flagsv s) = 0) = (num_free (guest s) \<noteq> 0)"
  by (simp_all add: add_inbuf_eq Let_def)

section \<open>Capacity conservation\<close>

text \<open>
  Claim C4, amended. In every state reached from the initial state of a ring of \<open>2^k\<close>
  slots by publish, claim-and-complete, reclaim and the notification operations, where
  \<open>get_buf\<close> is never called with \<open>num_free\<close> equal to \<open>ring_size\<close>, the free-slot count
  plus the number of slots owned by the consumer plus the number of slots completed but
  not yet reclaimed is the capacity; in every reachable state without exception
  \<open>num_free\<close> plus the 32-bit difference of publish index and reclaim cursor is
  \<open>ring_size\<close>; and \<open>add_inbuf\<close> returns \<open>-1\<close> exactly when \<open>num_free\<close> is 0 and 0 otherwise.
\<close>

theorem capacity_conserved:
  "(k < 32 \<and> reclaim_guarded xs (initial (2 ^ k)) \<longrightarrow>
      unat (num_free (guest (run xs (initial (2 ^ k))))) + owned_by_host (run xs (initial (2 ^ k)))
        + unat (used_idx (host (run xs (initial (2 ^ k))))
                - last_used_idx (guest (run xs (initial (2 ^ k))))) = 2 ^ k)
   \<and> num_free (guest (run xs (initial rs))) + in_flight (run xs (initial rs)) = rs
   \<and> (fst (add_inbuf lenv bufv datap flagsv s) = - 1) = (num_free (guest s) = 0)
   \<and> (fst (add_inbuf lenv bufv datap flagsv s) = 0) = (num_free (guest s) \<noteq> 0)"
proof -
  have 1: "unat (num_free (guest (run xs (initial (2 ^ k))))) + owned_by_host (run xs (initial (2 ^ k)))
        + unat (used_idx (host (run xs (initial (2 ^ k))))
                - last_used_idx (guest (run xs (initial (2 ^ k))))) = 2 ^ k"
    if "k < 32" "reclaim_guarded xs (initial (2 ^ k))"
  proof -
    from ring_inv_run [OF ring_inv_initial [OF that(1)] that(2)]
    obtain L U A where "ring_inv k (run xs (initial (2 ^ k))) L U A" by blast
    then show ?thesis by (rule ring_inv_conserved)
  qed
  have 2: "num_free (guest (run xs (initial rs))) + in_flight (run xs (initial rs)) = rs"
    by (simp add: run_balance) (simp add: initial_def in_flight_def)
  from 1 2 add_inbuf_result [of lenv bufv datap flagsv s] show ?thesis by blast
qed

theorem capacity_conserved_witness:
  "(2 :: nat) < 32 \<and> reclaim_guarded busy (initial (2 ^ 2))
   \<and> num_free (guest (run busy (initial (2 ^ 2)))) = 2
   \<and> owned_by_host (run busy (initial (2 ^ 2))) = 1
   \<and> used_idx (host (run busy (initial (2 ^ 2)))) - last_used_idx (guest (run busy (initial (2 ^ 2)))) = 1
   \<and> unat (num_free (guest (run busy (initial (2 ^ 2))))) + owned_by_host (run busy (initial (2 ^ 2)))
        + unat (used_idx (host (run busy (initial (2 ^ 2))))
                - last_used_idx (guest (run busy (initial (2 ^ 2))))) = 2 ^ 2"
proof -
  have h: "(2 :: nat) < 32 \<and> reclaim_guarded busy (initial (2 ^ 2))" by code_simp
  have v: "num_free (guest (run busy (initial (2 ^ 2)))) = 2
    \<and> owned_by_host (run busy (initial (2 ^ 2))) = 1
    \<and> used_idx (host (run busy (initial (2 ^ 2)))) - last_used_idx (guest (run busy (initial (2 ^ 2)))) = 1"
    by code_simp
  from capacity_conserved [of 2 busy] h
  have "unat (num_free (guest (run busy (initial (2 ^ 2))))) + owned_by_host (run busy (initial (2 ^ 2)))
        + unat (used_idx (host (run busy (initial (2 ^ 2))))
                - last_used_idx (guest (run busy (initial (2 ^ 2))))) = 2 ^ 2"
    by blast
  with h v show ?thesis by blast
qed

text \<open>
  Claim C4 as stated fails after one publish and one completion on a ring of four slots:
  \<open>num_free\<close> is 3 and no descriptor carries \<open>DESC_HW\<close>, since a completed slot is not
  free until \<open>get_buf\<close> has reclaimed it.
\<close>

theorem conservation_counterexample:
  "unat (num_free (guest (run [Add_inbuf 8 0x1000 0xA 0, Use_buf] (initial 4))))
     + owned_by_host (run [Add_inbuf 8 0x1000 0xA 0, Use_buf] (initial 4))
   \<noteq> unat (ring_size (run [Add_inbuf 8 0x1000 0xA 0, Use_buf] (initial 4)))"
  by code_simp

section \<open>Order of reclaimed tags\<close>

lemma shadow_inv_facts:
  assumes "shadow_inv k s L A pub"
  shows "k \<le> 16" and "length (state.data s) = 2 ^ k"
    and "\<And>i. i < 2 ^ k \<Longrightarrow> index (ring s ! i) = of_nat i"
    and "length pub = A"
    and "\<And>j. L \<le> j \<Longrightarrow> j < A \<Longrightarrow> data.data (state.data s ! (j mod 2 ^ k)) = pub ! j"
  using assms by (simp_all add: shadow_inv_def)

lemma shadow_invI:
  assumes "k \<le> 16" and "length (state.data s) = 2 ^ k"
    and "\<And>i. i < 2 ^ k \<Longrightarrow> index (ring s ! i) = of_nat i"
    and "length pub = A"
    and "\<And>j. L \<le> j \<Longrightarrow> j < A \<Longrightarrow> data.data (state.data s ! (j mod 2 ^ k)) = pub ! j"
  shows "shadow_inv k s L A pub"
  using assms by (simp add: shadow_inv_def)

lemma pow_le_u16:
  assumes "k \<le> 16"
  shows "(2 :: nat) ^ k \<le> 65536"
proof -
  have "(2 :: nat) ^ k \<le> 2 ^ 16" using assms by (intro power_increasing) simp_all
  then show ?thesis by simp
qed

lemma ids_nth:
  assumes "map index xs = map index ys" and "i < length ys"
  shows "index (xs ! i) = index (ys ! i)"
proof -
  have "length xs = length ys" using assms(1) by (rule map_eq_imp_length_eq)
  then have "index (xs ! i) = map index xs ! i" using assms(2) by simp
  also have "\<dots> = map index ys ! i" by (simp only: assms(1))
  also have "\<dots> = index (ys ! i)" using assms(2) by simp
  finally show ?thesis .
qed

lemma add_inbuf_data:
  assumes "num_free (guest s) \<noteq> 0"
  shows "state.data (snd (add_inbuf lenv bufv datap flagsv s)) =
     (state.data s)[unat (index (ring s ! unat ((ring_size s - 1) AND avail_idx (guest s)))) :=
        \<lparr>buf = bufv, data.data = datap\<rparr>]"
  using assms by (simp add: add_inbuf_eq Let_def)

lemma shadow_add:
  assumes inv: "ring_inv k s L U A" and sh: "shadow_inv k s L A pub"
    and nf: "num_free (guest s) \<noteq> 0"
  shows "shadow_inv k (snd (add_inbuf lenv bufv datap flagsv s)) L (Suc A) (pub @ [datap])"
proof -
  let ?s = "snd (add_inbuf lenv bufv datap flagsv s)"
  note f = ring_inv_facts [OF inv]
  note g = shadow_inv_facts [OF sh]
  have lt: "A < L + 2 ^ k" using ring_inv_full [OF inv] nf f(9) by simp
  have h: "unat ((ring_size s - 1) AND avail_idx (guest s)) = A mod 2 ^ k"
    by (simp only: f(2) f(6) slot_mod [OF f(1)])
  have hn: "A mod 2 ^ k < 2 ^ k" by simp
  have "A mod 2 ^ k < 65536" using hn pow_le_u16 [OF g(1)] by (rule less_le_trans)
  then have "unat (index (ring s ! (A mod 2 ^ k))) = A mod 2 ^ k"
    by (simp only: g(3) [OF hn] unat_of_nat_u16)
  then have d: "state.data ?s = (state.data s)[A mod 2 ^ k := \<lparr>buf = bufv, data.data = datap\<rparr>]"
    by (simp only: add_inbuf_data [OF nf] h)
  show ?thesis
  proof (rule shadow_invI)
    show "k \<le> 16" by (rule g(1))
    show "length (state.data ?s) = 2 ^ k" by (simp add: d g(2))
    show "index (ring ?s ! i) = of_nat i" if "i < 2 ^ k" for i
    proof -
      have "index (ring ?s ! i) = index (ring s ! i)"
        using that by (intro ids_nth add_inbuf_ids) (simp add: f(3))
      then show ?thesis using g(3) [OF that] by simp
    qed
    show "length (pub @ [datap]) = Suc A" by (simp add: g(4))
    show "data.data (state.data ?s ! (j mod 2 ^ k)) = (pub @ [datap]) ! j"
      if "L \<le> j" "j < Suc A" for j
    proof (cases "j = A")
      case True
      have "(pub @ [datap]) ! A = datap"
        using nth_append_length [of pub datap] by (simp only: g(4))
      then show ?thesis using True by (simp add: d g(2))
    next
      case False
      then have j: "j < A" using that by simp
      then have "A < j + 2 ^ k" using lt that(1) by simp
      with j have "A mod 2 ^ k \<noteq> j mod 2 ^ k" by (rule mod_apart)
      then have "data.data (state.data ?s ! (j mod 2 ^ k)) = data.data (state.data s ! (j mod 2 ^ k))"
        by (simp add: d)
      also have "\<dots> = pub ! j" using that(1) j by (rule g(5))
      also have "\<dots> = (pub @ [datap]) ! j" using j by (simp add: nth_append g(4))
      finally show ?thesis .
    qed
  qed
qed

lemma shadow_use:
  assumes sh: "shadow_inv k s L A pub" and len: "length (ring s) = 2 ^ k"
  shows "shadow_inv k (snd (snd (use_buf out s))) L A pub"
proof -
  let ?s = "snd (snd (use_buf out s))"
  note g = shadow_inv_facts [OF sh]
  have d: "state.data ?s = state.data s"
    by (cases "fst (use_buf out s)") (simp_all add: use_buf_succeeds use_buf_fails)
  show ?thesis
  proof (rule shadow_invI)
    show "k \<le> 16" by (rule g(1))
    show "length (state.data ?s) = 2 ^ k" by (simp add: d g(2))
    show "index (ring ?s ! i) = of_nat i" if "i < 2 ^ k" for i
    proof -
      have "index (ring ?s ! i) = index (ring s ! i)"
        using that by (intro ids_nth use_buf_ids) (simp add: len)
      then show ?thesis using g(3) [OF that] by simp
    qed
    show "length pub = A" by (rule g(4))
    show "data.data (state.data ?s ! (j mod 2 ^ k)) = pub ! j" if "L \<le> j" "j < A" for j
      using g(5) [OF that] by (simp add: d)
  qed
qed

lemma shadow_get:
  assumes inv: "ring_inv k s L U A" and sh: "shadow_inv k s L A pub"
    and some: "num_free (guest s) \<noteq> ring_size s" and free: "\<not> hw s (get_buf_head s)"
  shows "shadow_inv k (snd (snd (get_buf out s))) (Suc L) A pub"
    and "fst (get_buf out s) = pub ! L" and "L < A"
proof -
  let ?s = "snd (snd (get_buf out s))"
  note f = ring_inv_facts [OF inv]
  note g = shadow_inv_facts [OF sh]
  note e = get_buf_takes [OF free, of out]
  have lu: "L < U" using inv some free by (rule ring_inv_get_done)
  then show la: "L < A" using f(8) by simp
  have n: "unat (ring_size s) = 2 ^ k" by (simp only: f(2) unat_pow2 [OF f(1)])
  have "get_buf_index s = get_buf_head s"
  proof (rule get_buf_index_head)
    show "0 < unat (ring_size s)" by (simp add: n)
    show "unat (ring_size s) \<le> 65536" using pow_le_u16 [OF g(1)] by (simp add: n)
    show "\<forall>i < unat (ring_size s). index (ring s ! i) = of_nat i" by (simp add: n g(3))
  qed
  then have i: "get_buf_index s = L mod 2 ^ k" by (simp add: ring_inv_get_head [OF inv])
  have d: "state.data ?s = (state.data s)[L mod 2 ^ k := \<lparr>buf = 0, data.data = 0\<rparr>]"
    by (simp only: e(8) i)
  show "fst (get_buf out s) = pub ! L"
    using g(5) [of L] la by (simp add: e(7) i)
  show "shadow_inv k ?s (Suc L) A pub"
  proof (rule shadow_invI)
    show "k \<le> 16" by (rule g(1))
    show "length (state.data ?s) = 2 ^ k" by (simp add: d g(2))
    show "index (ring ?s ! i) = of_nat i" if "i < 2 ^ k" for i
      using g(3) [OF that] by (simp add: e(2))
    show "length pub = A" by (rule g(4))
    show "data.data (state.data ?s ! (j mod 2 ^ k)) = pub ! j" if "Suc L \<le> j" "j < A" for j
    proof -
      have "L < j" "j < L + 2 ^ k" using that f(9) by simp_all
      then have "j mod 2 ^ k \<noteq> L mod 2 ^ k" by (rule mod_apart)
      then have "data.data (state.data ?s ! (j mod 2 ^ k)) = data.data (state.data s ! (j mod 2 ^ k))"
        by (simp add: d)
      also have "\<dots> = pub ! j" using that by (intro g(5)) simp_all
      finally show ?thesis .
    qed
  qed
qed

lemma shadow_inv_cong:
  assumes "shadow_inv k s L A pub" and "ring s' = ring s" and "state.data s' = state.data s"
  shows "shadow_inv k s' L A pub"
  using assms by (simp add: shadow_inv_def)

lemma nonnull_snoc: "nonnull (ts @ [t]) = nonnull ts @ (if t \<noteq> 0 then [t] else [])"
  by (simp add: nonnull_def)

lemma idle_step:
  assumes inv: "ring_inv k s L U A" and sh: "shadow_inv k s L A pub"
    and "ring_size s' = ring_size s" and "ring s' = ring s" and "state.data s' = state.data s"
    and "last_used_idx (guest s') = last_used_idx (guest s)"
    and "avail_idx (guest s') = avail_idx (guest s)"
    and "num_free (guest s') = num_free (guest s)"
    and "used_idx (host s') = used_idx (host s)"
  shows "\<exists>L' U' A'. ring_inv k s' L' U' A' \<and> shadow_inv k s' L' A' (pub @ [])
           \<and> nonnull (take L' (pub @ [])) = nonnull (take L pub) @ []"
proof -
  have "ring_inv k s' L U A" using inv assms(3,4,6,7,8,9) by (rule ring_inv_cong)
  moreover have "shadow_inv k s' L A pub" using sh assms(4,5) by (rule shadow_inv_cong)
  ultimately show ?thesis by auto
qed

lemma fifo_step:
  assumes inv: "ring_inv k s L U A" and sh: "shadow_inv k s L A pub"
    and g: "x = Get_buf \<Longrightarrow> num_free (guest s) \<noteq> ring_size s"
  shows "\<exists>L' U' A'. ring_inv k (step x s) L' U' A'
           \<and> shadow_inv k (step x s) L' A' (pub @ published1 x s)
           \<and> nonnull (take L' (pub @ published1 x s)) = nonnull (take L pub) @ reclaimed1 x s"
proof (cases x)
  case (Add_inbuf lenv bufv datap flagsv)
  show ?thesis
  proof (cases "num_free (guest s) = 0")
    case True
    then have "step x s = s" "published1 x s = []" "reclaimed1 x s = []"
      by (simp_all add: Add_inbuf add_inbuf_full)
    then show ?thesis using inv sh by auto
  next
    case False
    have 1: "ring_inv k (step x s) L U (Suc A)"
      using ring_inv_add [OF inv False, of lenv bufv datap flagsv] by (simp add: Add_inbuf)
    have p: "published1 x s = [datap]" "reclaimed1 x s = []"
      using False by (simp_all add: Add_inbuf add_inbuf_fields)
    have st: "step x s = snd (add_inbuf lenv bufv datap flagsv s)" by (simp add: Add_inbuf)
    have 2: "shadow_inv k (step x s) L (Suc A) (pub @ published1 x s)"
      unfolding st p by (rule shadow_add [OF inv sh False])
    have "L \<le> length pub"
      using ring_inv_facts(7,8) [OF inv] shadow_inv_facts(4) [OF sh] by simp
    then have 3: "nonnull (take L (pub @ published1 x s)) = nonnull (take L pub) @ reclaimed1 x s"
      by (simp add: p)
    from 1 2 3 show ?thesis by blast
  qed
next
  case Get_buf
  show ?thesis
  proof (cases "hw s (get_buf_head s)")
    case True
    then have "step x s = s" "published1 x s = []" "reclaimed1 x s = []"
      by (simp_all add: Get_buf get_buf_blocked)
    then show ?thesis using inv sh by auto
  next
    case False
    note some = g [OF Get_buf]
    have 1: "ring_inv k (step x s) (Suc L) U A"
      using ring_inv_get [OF inv some False, of out0] by (simp add: Get_buf)
    have st: "step x s = snd (snd (get_buf out0 s))" "published1 x s = []"
      by (simp_all add: Get_buf)
    have 2: "shadow_inv k (step x s) (Suc L) A (pub @ published1 x s)"
      unfolding st append_Nil2 by (rule shadow_get(1) [OF inv sh some False])
    have t: "fst (get_buf out0 s) = pub ! L" and la: "L < A"
      using shadow_get(2,3) [OF inv sh some False] by simp_all
    have "L < length pub" using la shadow_inv_facts(4) [OF sh] by simp
    then have "take (Suc L) pub = take L pub @ [pub ! L]"
      by (rule take_Suc_conv_app_nth)
    then have 3: "nonnull (take (Suc L) (pub @ published1 x s)) = nonnull (take L pub) @ reclaimed1 x s"
      by (simp add: Get_buf t nonnull_snoc)
    from 1 2 3 show ?thesis by blast
  qed
next
  case Use_buf
  have 1: "\<exists>U'. ring_inv k (step x s) L U' A"
  proof (cases "fst (use_buf out0 s)")
    case True
    have "ring_inv k (step x s) L (Suc U) A"
      using ring_inv_use [OF inv True] by (simp add: Use_buf)
    then show ?thesis by blast
  next
    case False
    have "ring_inv k (step x s) L U A"
      using ring_inv_use_fail [OF inv False] by (simp add: Use_buf)
    then show ?thesis by blast
  qed
  have st: "step x s = snd (snd (use_buf out0 s))" "published1 x s = []"
    by (simp_all add: Use_buf)
  have 2: "shadow_inv k (step x s) L A (pub @ published1 x s)"
    unfolding st append_Nil2 by (rule shadow_use [OF sh ring_inv_facts(3) [OF inv]])
  have 3: "nonnull (take L (pub @ published1 x s)) = nonnull (take L pub) @ reclaimed1 x s"
    by (simp add: Use_buf)
  from 1 2 3 show ?thesis by blast
next
  case Enable_call
  have "\<exists>L' U' A'. ring_inv k (snd (enable_call s)) L' U' A'
           \<and> shadow_inv k (snd (enable_call s)) L' A' (pub @ [])
           \<and> nonnull (take L' (pub @ [])) = nonnull (take L pub) @ []"
    using inv sh by (rule idle_step) (simp_all add: enable_call_def Let_def)
  then show ?thesis by (simp add: Enable_call)
next
  case Disable_call
  then show ?thesis using inv sh by (auto simp: disable_call_def)
next
  case Kick_available
  have "\<exists>L' U' A'. ring_inv k (kick_available s) L' U' A'
           \<and> shadow_inv k (kick_available s) L' A' (pub @ [])
           \<and> nonnull (take L' (pub @ [])) = nonnull (take L pub) @ []"
    using inv sh by (rule idle_step) (simp_all add: kick_available_def)
  then show ?thesis by (simp add: Kick_available)
next
  case Enable_kick
  have "\<exists>L' U' A'. ring_inv k (snd (enable_kick s)) L' U' A'
           \<and> shadow_inv k (snd (enable_kick s)) L' A' (pub @ [])
           \<and> nonnull (take L' (pub @ [])) = nonnull (take L pub) @ []"
    using inv sh by (rule idle_step) (simp_all add: enable_kick_def Let_def)
  then show ?thesis by (simp add: Enable_kick)
next
  case Disable_kick
  then show ?thesis using inv sh by (auto simp: disable_kick_def)
next
  case Call_used
  have "\<exists>L' U' A'. ring_inv k (call_used s) L' U' A'
           \<and> shadow_inv k (call_used s) L' A' (pub @ [])
           \<and> nonnull (take L' (pub @ [])) = nonnull (take L pub) @ []"
    using inv sh by (rule idle_step) (simp_all add: call_used_def)
  then show ?thesis by (simp add: Call_used)
qed

lemma fifo_run:
  "ring_inv k s L U A \<Longrightarrow> shadow_inv k s L A pub \<Longrightarrow> reclaim_guarded xs s \<Longrightarrow>
     \<exists>L'. nonnull (take L' (pub @ published xs s)) = nonnull (take L pub) @ reclaimed xs s"
proof (induction xs arbitrary: s L U A pub)
  case Nil
  then show ?case by auto
next
  case (Cons x xs)
  have "\<exists>L' U' A'. ring_inv k (step x s) L' U' A'
           \<and> shadow_inv k (step x s) L' A' (pub @ published1 x s)
           \<and> nonnull (take L' (pub @ published1 x s)) = nonnull (take L pub) @ reclaimed1 x s"
    using Cons.prems by (intro fifo_step) (simp_all split: if_splits)
  then obtain L1 U1 A1 where 1: "ring_inv k (step x s) L1 U1 A1"
    and 2: "shadow_inv k (step x s) L1 A1 (pub @ published1 x s)"
    and 3: "nonnull (take L1 (pub @ published1 x s)) = nonnull (take L pub) @ reclaimed1 x s"
    by blast
  have "reclaim_guarded xs (step x s)" using Cons.prems by simp
  from Cons.IH [OF 1 2 this] obtain L' where
    "nonnull (take L' ((pub @ published1 x s) @ published xs (step x s)))
       = nonnull (take L1 (pub @ published1 x s)) @ reclaimed xs (step x s)"
    by blast
  then have "nonnull (take L' (pub @ published (x # xs) s))
       = nonnull (take L pub) @ reclaimed (x # xs) s"
    using 3 by simp
  then show ?case by blast
qed

lemma shadow_inv_initial:
  assumes "k \<le> 16"
  shows "shadow_inv k (initial (2 ^ k)) 0 0 []"
proof (rule shadow_invI)
  have k: "k < 32" using assms by simp
  have n: "unat ((2 :: u32) ^ k) = 2 ^ k" using k by (rule unat_pow2)
  show "k \<le> 16" by (rule assms)
  show "length (state.data (initial (2 ^ k))) = 2 ^ k" by (simp add: initial_def n)
  show "index (ring (initial (2 ^ k)) ! i) = of_nat i" if "i < 2 ^ k" for i
    using that by (simp add: initial_ring_nth n)
  show "length ([] :: ptr list) = 0" by simp
  show "data.data (state.data (initial (2 ^ k)) ! (j mod 2 ^ k)) = [] ! j" if "0 \<le> j" "j < 0" for j
    using that by simp
qed

lemma run_append: "run (xs @ ys) s = run ys (run xs s)"
  by (induction xs arbitrary: s) simp_all

lemma published_append: "published (xs @ ys) s = published xs s @ published ys (run xs s)"
  by (induction xs arbitrary: s) simp_all

lemma reclaimed_append: "reclaimed (xs @ ys) s = reclaimed xs s @ reclaimed ys (run xs s)"
  by (induction xs arbitrary: s) simp_all

lemma publish_guarded_append:
  "publish_guarded (xs @ ys) s = (publish_guarded xs s \<and> publish_guarded ys (run xs s))"
  by (induction xs arbitrary: s) simp_all

lemma reclaim_guarded_append:
  "reclaim_guarded (xs @ ys) s = (reclaim_guarded xs s \<and> reclaim_guarded ys (run xs s))"
  by (induction xs arbitrary: s) simp_all

lemma filled_Suc: "filled k (Suc n) = snd (add_inbuf 8 0x1000 0xA 0 (filled k n))"
proof -
  have "replicate (Suc n) (Add_inbuf 8 0x1000 0xA 0)
          = replicate n (Add_inbuf 8 0x1000 0xA 0) @ [Add_inbuf 8 0x1000 0xA 0]"
    by (simp add: replicate_append_same)
  then have "filled k (Suc n) = run [Add_inbuf 8 0x1000 0xA 0] (filled k n)"
    unfolding filled_def by (simp only: run_append)
  then show ?thesis by simp
qed

lemma filled_props:
  "k < 32 \<Longrightarrow> n \<le> 2 ^ k \<Longrightarrow>
     ring_inv k (filled k n) 0 0 n
     \<and> host (filled k n) = host (initial (2 ^ k))
     \<and> length (state.data (filled k n)) = 2 ^ k
     \<and> (0 < n \<longrightarrow> flags (ring (filled k n) ! 0) = DESC_HW \<and> guest.wrap (guest (filled k n)) = 0)
     \<and> publish_guarded (replicate n (Add_inbuf 8 0x1000 0xA 0)) (initial (2 ^ k))
     \<and> reclaim_guarded (replicate n (Add_inbuf 8 0x1000 0xA 0)) (initial (2 ^ k))
     \<and> published (replicate n (Add_inbuf 8 0x1000 0xA 0)) (initial (2 ^ k)) = replicate n 0xA
     \<and> reclaimed (replicate n (Add_inbuf 8 0x1000 0xA 0)) (initial (2 ^ k)) = []"
proof (induction n)
  case 0
  have "unat ((2 :: u32) ^ k) = 2 ^ k" using 0(1) by (rule unat_pow2)
  then show ?case
    using ring_inv_initial [OF 0(1)] by (simp add: filled_def) (simp add: initial_def)
next
  case (Suc n)
  let ?x = "Add_inbuf 8 0x1000 0xA 0"
  let ?xs = "replicate n ?x"
  let ?s0 = "initial (2 ^ k)"
  from Suc have inv: "ring_inv k (filled k n) 0 0 n"
    and ho: "host (filled k n) = host ?s0"
    and ld: "length (state.data (filled k n)) = 2 ^ k"
    and fl: "0 < n \<longrightarrow> flags (ring (filled k n) ! 0) = DESC_HW \<and> guest.wrap (guest (filled k n)) = 0"
    and pg: "publish_guarded ?xs ?s0" and rg: "reclaim_guarded ?xs ?s0"
    and pu: "published ?xs ?s0 = replicate n 0xA"
    and re: "reclaimed ?xs ?s0 = []"
    by simp_all
  note f = ring_inv_facts [OF inv]
  have "n \<noteq> 0 + 2 ^ k" using Suc.prems by simp
  then have nf: "num_free (guest (filled k n)) \<noteq> 0" using ring_inv_full [OF inv] by simp
  have run: "run ?xs ?s0 = filled k n" by (simp add: filled_def)
  have sn: "replicate (Suc n) ?x = ?xs @ [?x]" by (simp add: replicate_append_same)
  have h: "unat ((ring_size (filled k n) - 1) AND avail_idx (guest (filled k n))) = n mod 2 ^ k"
    by (simp only: f(2) f(6) slot_mod [OF f(1)])
  have nm: "n mod 2 ^ k = n" using Suc.prems by simp
  have 1: "ring_inv k (filled k (Suc n)) 0 0 (Suc n)"
    unfolding filled_Suc using inv nf by (rule ring_inv_add)
  have 2: "host (filled k (Suc n)) = host ?s0"
    unfolding filled_Suc by (simp only: add_inbuf_fields(6) [OF nf] ho)
  have 3: "length (state.data (filled k (Suc n))) = 2 ^ k"
    unfolding filled_Suc by (simp add: add_inbuf_data [OF nf] ld)
  have 4: "flags (ring (filled k (Suc n)) ! 0) = DESC_HW \<and> guest.wrap (guest (filled k (Suc n))) = 0"
  proof (cases "n = 0")
    case True
    have "guest.wrap (guest (filled k 0)) = 0x40" by (simp add: filled_def initial_def)
    moreover have "(ring_size (filled k 0) - 1) AND avail_idx (guest (filled k 0)) = 0"
      using h True by (simp add: unsigned_eq_0_iff)
    ultimately show ?thesis
      unfolding filled_Suc using nf f(3) True
      by (simp add: add_inbuf_eq Let_def guest_flip_def)
  next
    case False
    then have "flags (ring (filled k n) ! 0) = DESC_HW" "guest.wrap (guest (filled k n)) = 0"
      using fl by simp_all
    moreover have "(ring_size (filled k n) - 1) AND avail_idx (guest (filled k n)) \<noteq> 0"
      using h nm False by (simp add: unsigned_eq_0_iff flip: unat_0_iff)
    ultimately show ?thesis
      unfolding filled_Suc using nf h nm False by (simp add: add_inbuf_eq Let_def)
  qed
  have 5: "publish_guarded (replicate (Suc n) ?x) ?s0"
    unfolding sn using pg run nf by (simp add: publish_guarded_append)
  have 6: "reclaim_guarded (replicate (Suc n) ?x) ?s0"
    unfolding sn using rg by (simp add: reclaim_guarded_append)
  have 7: "published (replicate (Suc n) ?x) ?s0 = replicate (Suc n) 0xA"
  proof -
    have "published (?xs @ [?x]) ?s0 = replicate n 0xA @ [0xA]"
      using pu run nf by (simp add: published_append add_inbuf_result)
    then show ?thesis by (simp only: sn replicate_append_same replicate_Suc)
  qed
  have 8: "reclaimed (replicate (Suc n) ?x) ?s0 = []"
    unfolding sn using re by (simp add: reclaimed_append)
  from 1 2 3 4 5 6 7 8 show ?case by blast
qed

lemma aliased_run:
  "publish_guarded aliased (initial 0x20000)
   \<and> reclaim_guarded aliased (initial 0x20000)
   \<and> published aliased (initial 0x20000) = replicate 65536 0xA @ [0xB]
   \<and> reclaimed aliased (initial 0x20000) = [0xB]"
proof -
  let ?s0 = "initial 0x20000"
  let ?xs = "replicate 65536 (Add_inbuf 8 0x1000 0xA 0)"
  let ?sn = "filled 17 65536"
  let ?s1 = "snd (add_inbuf 8 0x1000 0xB 0 ?sn)"
  let ?s2 = "snd (snd (use_buf out0 ?s1))"
  have run: "run ?xs ?s0 = ?sn" by (simp add: filled_def)
  have P: "ring_inv 17 ?sn 0 0 65536" "host ?sn = host ?s0"
    "length (state.data ?sn) = 2 ^ 17" "flags (ring ?sn ! 0) = DESC_HW"
    "publish_guarded ?xs ?s0" "reclaim_guarded ?xs ?s0" "reclaimed ?xs ?s0 = []"
    "published ?xs ?s0 = replicate 65536 0xA"
    using filled_props [of 17 65536] by simp_all
  note f = ring_inv_facts [OF P(1)]
  have nf: "num_free (guest ?sn) \<noteq> 0" using ring_inv_full [OF P(1)] by simp
  have h: "unat ((ring_size ?sn - 1) AND avail_idx (guest ?sn)) = 65536"
  proof -
    have "unat ((ring_size ?sn - 1) AND avail_idx (guest ?sn)) = 65536 mod 2 ^ 17"
      by (simp only: f(2) f(6) slot_mod [OF f(1)])
    then show ?thesis by simp
  qed
  have id: "index (ring ?sn ! 65536) = 0"
  proof -
    have "index (ring (run ?xs ?s0) ! 65536) = of_nat 65536"
      by (rule run_index_nth) simp
    then show ?thesis by (simp add: run)
  qed
  have inv1: "ring_inv 17 ?s1 0 0 (Suc 65536)" using P(1) nf by (rule ring_inv_add)
  have d1: "data.data (state.data ?s1 ! 0) = 0xB"
    using P(3) by (simp add: add_inbuf_data [OF nf] h id)
  have fl1: "flags (ring ?s1 ! 0) = DESC_HW"
    using nf h P(4) by (simp add: add_inbuf_eq Let_def)
  have ho1: "host ?s1 = host ?s0" by (simp only: add_inbuf_fields(6) [OF nf] P(2))
  have hd1: "use_buf_head ?s1 = 0" using ring_inv_use_head(1) [OF inv1] by simp
  have "(ring_size ?s1 - 1) AND used_idx (host ?s1) = 0"
    using hd1 by (simp add: use_buf_head_def unsigned_eq_0_iff)
  then have "host.wrap (lap_host ?s1) = 0"
    by (simp add: lap_host_def ho1 host_flip_def) (simp add: initial_def DESC_WRAP_def)
  then have ok: "fst (use_buf out0 ?s1)"
    by (simp add: use_buf_fst use_buf_ok_def hd1 fl1) (simp add: DESC_HW_def DESC_WRAP_def)
  have inv2: "ring_inv 17 ?s2 0 (Suc 0) (Suc 65536)" using inv1 ok by (rule ring_inv_use)
  have d2: "state.data ?s2 = state.data ?s1" by (rule use_buf_succeeds(4) [OF ok])
  have hd2: "get_buf_head ?s2 = 0" using ring_inv_get_head [OF inv2] by simp
  have "\<not> hw ?s2 (131072 mod 2 ^ 17)"
    by (rule ring_inv_facts(12) [OF inv2]) simp_all
  then have free: "\<not> hw ?s2 (get_buf_head ?s2)" by (simp add: hd2)
  have "map index (ring ?s2) = map index (ring ?sn)"
    by (simp only: use_buf_ids add_inbuf_ids)
  moreover have "0 < length (ring ?sn)" by (simp add: f(3))
  ultimately have "index (ring ?s2 ! 0) = index (ring ?sn ! 0)" by (rule ids_nth)
  moreover have "index (ring (run ?xs ?s0) ! 0) = of_nat 0" by (rule run_index_nth) simp
  ultimately have id2: "index (ring ?s2 ! 0) = 0" by (simp add: run)
  have gi: "get_buf_index ?s2 = 0" by (simp add: get_buf_index_def hd2 id2)
  have t: "fst (get_buf out0 ?s2) = 0xB"
    by (simp add: get_buf_takes(7) [OF free] gi d2 d1)
  have some: "num_free (guest ?s2) \<noteq> ring_size ?s2" using ring_inv_none [OF inv2] by simp
  have pg: "publish_guarded aliased ?s0"
    using P(5) nf by (simp add: aliased_def publish_guarded_append run)
  have rg: "reclaim_guarded aliased ?s0"
    using P(6) some by (simp add: aliased_def reclaim_guarded_append run)
  have re: "reclaimed aliased ?s0 = [0xB]"
    using P(7) t by (simp add: aliased_def reclaimed_append run)
  have pu: "published aliased ?s0 = replicate 65536 0xA @ [0xB]"
    using P(8) nf by (simp add: aliased_def published_append run add_inbuf_result)
  from pg rg pu re show ?thesis by blast
qed

text \<open>
  Claim C3, amended. On a ring of \<open>2^k\<close> slots with \<open>k\<close> at most 16, for every sequence
  of calls of the two endpoints in which \<open>get_buf\<close> is never called with \<open>num_free\<close> equal
  to \<open>ring_size\<close>, the tags that \<open>get_buf\<close> returns are, in this order, an initial
  segment of the non-null tags in the order in which \<open>add_inbuf\<close> published them.
\<close>

theorem fifo_guarded:
  "k \<le> 16 \<and> reclaim_guarded xs (initial (2 ^ k)) \<longrightarrow>
     prefix (reclaimed xs (initial (2 ^ k))) (nonnull (published xs (initial (2 ^ k))))"
proof
  assume a: "k \<le> 16 \<and> reclaim_guarded xs (initial (2 ^ k))"
  then have k: "k < 32" by simp
  from fifo_run [OF ring_inv_initial [OF k] shadow_inv_initial] a
  obtain L' where "nonnull (take L' (published xs (initial (2 ^ k)))) = reclaimed xs (initial (2 ^ k))"
    by (auto simp: nonnull_def)
  moreover have "nonnull ys = nonnull (take L' ys) @ nonnull (drop L' ys)" for ys :: "ptr list"
    unfolding nonnull_def by (simp flip: filter_append)
  ultimately show "prefix (reclaimed xs (initial (2 ^ k))) (nonnull (published xs (initial (2 ^ k))))"
    by (metis prefixI)
qed

theorem fifo_guarded_witness:
  "(1 :: nat) \<le> 16 \<and> reclaim_guarded lap (initial (2 ^ 1))
   \<and> published lap (initial (2 ^ 1)) = [0xA, 0xB, 0xC]
   \<and> reclaimed lap (initial (2 ^ 1)) = [0xA, 0xB, 0xC]
   \<and> prefix (reclaimed lap (initial (2 ^ 1))) (nonnull (published lap (initial (2 ^ 1))))"
proof -
  have h: "(1 :: nat) \<le> 16 \<and> reclaim_guarded lap (initial (2 ^ 1))" by code_simp
  have v: "published lap (initial (2 ^ 1)) = [0xA, 0xB, 0xC]
     \<and> reclaimed lap (initial (2 ^ 1)) = [0xA, 0xB, 0xC]" by code_simp
  from fifo_guarded [of 1 lap] h
  have "prefix (reclaimed lap (initial (2 ^ 1))) (nonnull (published lap (initial (2 ^ 1))))"
    by blast
  with h v show ?thesis by blast
qed

text \<open>
  Claim C3 as stated fails in two ways, with \<open>add_inbuf\<close> never called on a full ring.
  On a ring of two slots \<open>get_buf\<close> is called once while nothing is published: it finds
  \<open>DESC_HW\<close> clear, returns \<open>NULL\<close> and advances \<open>last_used_idx\<close> past \<open>avail_idx\<close>; tags
  \<open>0xA\<close> and \<open>0xB\<close> are then published and completed, and come back as \<open>0xB\<close>, \<open>0xA\<close>.
  On a ring of \<open>2^17\<close> slots the 16-bit identifier of slot 65536 is 0, so the 65537th
  publish overwrites the shadow entry of the first, and the first reclaim returns the
  tag \<open>0xB\<close> of the last publish instead of \<open>0xA\<close>.
\<close>

theorem fifo_counterexample:
  "publish_guarded premature (initial 2)
   \<and> published premature (initial 2) = [0xA, 0xB]
   \<and> reclaimed premature (initial 2) = [0xB, 0xA]
   \<and> publish_guarded aliased (initial 0x20000)
   \<and> reclaim_guarded aliased (initial 0x20000)
   \<and> published aliased (initial 0x20000) = replicate 65536 0xA @ [0xB]
   \<and> reclaimed aliased (initial 0x20000) = [0xB]"
proof -
  have "publish_guarded premature (initial 2)
   \<and> published premature (initial 2) = [0xA, 0xB]
   \<and> reclaimed premature (initial 2) = [0xB, 0xA]"
    by code_simp
  then show ?thesis using aliased_run by blast
qed

section \<open>Generation bit of the producer\<close>

text \<open>
  The producer's wrap field flips on the first publish of a lap and not again before the
  next lap: after \<open>n\<close> publishes, \<open>n\<close> between 1 and the capacity, it holds 0 where it
  held \<open>0x40\<close> initially.
\<close>

lemma wrap_flips_once:
  assumes "k < 32" and "0 < n" and "n \<le> 2 ^ k"
  shows "guest.wrap (guest (initial (2 ^ k))) = 0x40"
    and "guest.wrap (guest (run (replicate n (Add_inbuf 8 0x1000 0xA 0)) (initial (2 ^ k)))) = 0"
    and "published (replicate n (Add_inbuf 8 0x1000 0xA 0)) (initial (2 ^ k)) = replicate n 0xA"
proof -
  show "guest.wrap (guest (initial (2 ^ k))) = 0x40" by (simp add: initial_def)
  from filled_props [OF assms(1,3)] assms(2)
  show "guest.wrap (guest (run (replicate n (Add_inbuf 8 0x1000 0xA 0)) (initial (2 ^ k)))) = 0"
    and "published (replicate n (Add_inbuf 8 0x1000 0xA 0)) (initial (2 ^ k)) = replicate n 0xA"
    by (simp_all add: filled_def)
qed

end
